theory Spec2Isabelle
  imports Main "HOL-Library.Word"
begin

section \<open>Strings and regular expressions of the host language\<close>

text \<open>
  A string of the source is a sequence of UTF-16 code units. Literals are written as
  \<open>js ''...''\<close>, which maps every ASCII character to its code unit.
\<close>

type_synonym cu = "16 word"
type_synonym jstring = "cu list"

definition js :: "string \<Rightarrow> jstring" where
  "js s = map of_char s"

text \<open>
  The character classes the two patterns of \<^verbatim>\<open>editor.ts\<close> use. \<open>\s\<close> is the
  white space and the line terminators of the language: TAB, LF, VT, FF, CR, SP, NBSP,
  U+1680, U+2000..U+200A, U+2028, U+2029, U+202F, U+205F, U+3000 and U+FEFF. The dot is
  every code unit but the four line terminators LF, CR, U+2028, U+2029.
\<close>

definition is_space :: "cu \<Rightarrow> bool" where
  "is_space c \<longleftrightarrow>
     c = 0x09 \<or> c = 0x0A \<or> c = 0x0B \<or> c = 0x0C \<or> c = 0x0D \<or> c = 0x20 \<or> c = 0xA0 \<or>
     c = 0x1680 \<or> (0x2000 \<le> c \<and> c \<le> 0x200A) \<or> c = 0x2028 \<or> c = 0x2029 \<or>
     c = 0x202F \<or> c = 0x205F \<or> c = 0x3000 \<or> c = 0xFEFF"

definition is_dot :: "cu \<Rightarrow> bool" where
  "is_dot c \<longleftrightarrow> \<not> (c = 0x0A \<or> c = 0x0D \<or> c = 0x2028 \<or> c = 0x2029)"

definition is_chr :: "char \<Rightarrow> cu \<Rightarrow> bool" where
  "is_chr a c \<longleftrightarrow> c = of_char a"

text \<open>
  The fragment of the pattern language that the source uses: the anchors \<open>^\<close> and
  \<open>$\<close> (no flags, so start and end of the input), one character of a class, a greedy
  quantifier \<open>{lo,hi}\<close> on a class (\<open>*\<close> is \<open>{0,}\<close>, \<open>+\<close> is \<open>{1,}\<close>), sequence,
  alternation and a capturing group. Both patterns of the source have their groups one
  after the other, never nested, so a group's number is the order in which it closes.
\<close>

datatype rx =
    Bol
  | Eol
  | Cls "cu \<Rightarrow> bool"
  | Rep nat "nat option" "cu \<Rightarrow> bool"
  | Cat rx rx
  | Alt rx rx
  | Grp rx

text \<open>
  A matcher state is the position in the input, the groups captured so far, and the rest
  of the input. \<open>rx_run\<close> lists the states after a match of the pattern, in the order in
  which a backtracking matcher tries them: a greedy quantifier tries the longest
  repetition first, an alternation its left branch first.
\<close>

type_synonym mstate = "nat \<times> jstring list \<times> jstring"

fun rx_run :: "rx \<Rightarrow> mstate \<Rightarrow> mstate list" where
  "rx_run Bol (pos, caps, rest) = (if pos = 0 then [(pos, caps, rest)] else [])"
| "rx_run Eol (pos, caps, rest) = (if rest = [] then [(pos, caps, rest)] else [])"
| "rx_run (Cls p) (pos, caps, rest) =
     (case rest of
        [] \<Rightarrow> []
      | c # cs \<Rightarrow> if p c then [(Suc pos, caps, cs)] else [])"
| "rx_run (Rep lo hi p) (pos, caps, rest) =
     (let n = length (takeWhile p rest);
          m = (case hi of None \<Rightarrow> n | Some h \<Rightarrow> min n h)
      in map (\<lambda>k. (pos + k, caps, drop k rest)) (rev [lo..<Suc m]))"
| "rx_run (Cat a b) s = concat (map (rx_run b) (rx_run a s))"
| "rx_run (Alt a b) s = rx_run a s @ rx_run b s"
| "rx_run (Grp a) (pos, caps, rest) =
     map (\<lambda>(pos', caps', rest'). (pos', caps' @ [take (pos' - pos) rest], rest'))
       (rx_run a (pos, caps, rest))"

text \<open>
  \<open>String.prototype.match\<close> with a pattern without the global flag: the first start
  position, from the left, at which the pattern matches; the result holds the matched
  text at index 0 and the groups from index 1 on, and is \<open>null\<close> (here \<open>None\<close>)
  when no position matches.
\<close>

fun rx_exec_at :: "rx \<Rightarrow> nat \<Rightarrow> jstring \<Rightarrow> jstring list option" where
  "rx_exec_at r pos [] =
     (case rx_run r (pos, [], []) of
        [] \<Rightarrow> None
      | (e, caps, _) # _ \<Rightarrow> Some (take (e - pos) [] # caps))"
| "rx_exec_at r pos (c # cs) =
     (case rx_run r (pos, [], c # cs) of
        [] \<Rightarrow> rx_exec_at r (Suc pos) cs
      | (e, caps, _) # _ \<Rightarrow> Some (take (e - pos) (c # cs) # caps))"

definition str_match :: "jstring \<Rightarrow> rx \<Rightarrow> jstring list option" where
  "str_match text r = rx_exec_at r 0 text"

text \<open>\<^verbatim>\<open>/^(#{1,6})\s+(.*)$/\<close>, the pattern of the heading decorator.\<close>

definition heading_rx :: rx where
  "heading_rx =
     Cat Bol (Cat (Grp (Rep 1 (Some 6) (is_chr CHR ''#'')))
       (Cat (Rep 1 None is_space) (Cat (Grp (Rep 0 None is_dot)) Eol)))"

text \<open>\<^verbatim>\<open>/^\s*-\s*\[( |x|X)\]/\<close>, the pattern of the checkbox decorator.\<close>

definition checkbox_rx :: rx where
  "checkbox_rx =
     Cat Bol (Cat (Rep 0 None is_space) (Cat (Cls (is_chr CHR ''-''))
       (Cat (Rep 0 None is_space) (Cat (Cls (is_chr CHR ''[''))
         (Cat (Grp (Alt (Cls (is_chr CHR '' '')) (Alt (Cls (is_chr CHR ''x'')) (Cls (is_chr CHR ''X'')))))
           (Cls (is_chr CHR '']'')))))))"

text \<open>
  \<^verbatim>\<open>^(#{1,6})\s+.*$\<close>, the heading pattern as the specification writes it: the source's
  pattern without its second group.
\<close>

definition heading_spec_rx :: rx where
  "heading_spec_rx =
     Cat Bol (Cat (Grp (Rep 1 (Some 6) (is_chr CHR ''#'')))
       (Cat (Rep 1 None is_space) (Cat (Rep 0 None is_dot) Eol)))"

text \<open>
  \<open>indexOf\<close> of a single code unit: the index of its first occurrence, or \<open>-1\<close>.
\<close>

definition indexOf :: "jstring \<Rightarrow> cu \<Rightarrow> int" where
  "indexOf s c = (if c \<in> set s then int (length (takeWhile (\<lambda>d. d \<noteq> c) s)) else -1)"

text \<open>
  \<open>toLowerCase\<close>, on the Basic Latin letters; other code units are left as they are,
  which is the language's result on the strings the source applies it to: the first
  group of the checkbox pattern, a space, \<open>x\<close> or \<open>X\<close>.
\<close>

definition toLowerCase :: "jstring \<Rightarrow> jstring" where
  "toLowerCase s = map (\<lambda>c. if 0x41 \<le> c \<and> c \<le> 0x5A then c + 0x20 else c) s"


definition digit_char :: "nat \<Rightarrow> char" where
  "digit_char n = ''0123456789'' ! n"

text \<open>The decimal numeral that a template literal prints for a natural number.\<close>

fun decimal :: "nat \<Rightarrow> string" where
  "decimal n = (if n < 10 then [digit_char n] else decimal (n div 10) @ [digit_char (n mod 10)])"

declare decimal.simps [simp del]

section \<open>The document, its lines and the view\<close>

text \<open>
  The editor library is a collaborator of \<^verbatim>\<open>editor.ts\<close>; what the source uses of it
  is modelled here. A document is its text, the lines separated by one LF, as
  \<open>doc.toString()\<close> returns it. A line has a number counted from 1, the offsets of
  its first character and of its end (the line break is not part of the line), and its
  text. \<open>doc.lineAt(pos)\<close> is the line that holds the offset \<open>pos\<close>, and raises a
  RangeError when \<open>pos\<close> is beyond the length of the document. \<open>OrderError\<close> is
  the error of the range set builder, below.
\<close>

datatype error = RangeError | OrderError

type_synonym doc = jstring

record line =
  line_from :: nat
  line_to :: nat
  line_number :: nat
  line_text :: jstring

fun split_lines :: "jstring \<Rightarrow> jstring list" where
  "split_lines [] = [] # []"
| "split_lines (c # cs) =
     (if c = 0x0A then [] # split_lines cs
      else (case split_lines cs of
              [] \<Rightarrow> [c] # []
            | l # ls \<Rightarrow> (c # l) # ls))"

fun mk_lines :: "nat \<Rightarrow> nat \<Rightarrow> jstring list \<Rightarrow> line list" where
  "mk_lines off n [] = []"
| "mk_lines off n (t # ts) =
     \<lparr>line_from = off, line_to = off + length t, line_number = n, line_text = t\<rparr>
       # mk_lines (off + length t + 1) (Suc n) ts"

definition doc_lines :: "doc \<Rightarrow> line list" where
  "doc_lines d = mk_lines 0 1 (split_lines d)"

definition lineAt :: "doc \<Rightarrow> nat \<Rightarrow> error + line" where
  "lineAt d pos =
     (if length d < pos then Inl RangeError
      else (case find (\<lambda>l. pos \<le> line_to l) (doc_lines d) of
              None \<Rightarrow> Inl RangeError
            | Some l \<Rightarrow> Inr l))"

text \<open>
  What a build reads of the view: the document and the head of the main selection (the
  state), and the visible ranges, each a pair \<open>(from, to)\<close>.
\<close>

record view =
  doc :: doc
  sel_head :: nat
  visibleRanges :: "(nat \<times> nat) list"

section \<open>Widgets and decorations\<close>

datatype widget =
    CheckboxWidget (checked: bool) (wfrom: nat) (wto: nat)
  | HiddenMarkerWidget

text \<open>\<open>CheckboxWidget.eq\<close>, lines 35 to 41.\<close>

fun checkbox_eq :: "widget \<Rightarrow> widget \<Rightarrow> bool" where
  "checkbox_eq (CheckboxWidget c f t) (CheckboxWidget c' f' t') \<longleftrightarrow> c' = c \<and> f' = f \<and> t' = t"
| "checkbox_eq _ _ \<longleftrightarrow> False"

text \<open>
  A decoration is \<open>Decoration.replace({widget})\<close> or \<open>Decoration.line({class})\<close>. Its
  \<open>startSide\<close> is the library's: \<open>Side.Line\<close> for a line decoration, and
  \<open>Side.NonIncStart - 1\<close> for a replace decoration that is neither a block nor
  inclusive, which is what the source asks for. At the same \<open>from\<close> a line decoration
  sorts before a replace decoration.
\<close>

datatype decoration = Replace widget | LineClass string

fun startSide :: "decoration \<Rightarrow> int" where
  "startSide (LineClass c) = - 200000000"
| "startSide (Replace w) = 500000000 - 1"

text \<open>
  The range set builder holds the ranges added to it, in the order of the calls of
  \<open>add\<close>, each with its \<open>from\<close>, its \<open>to\<close> and its decoration. The library's
  \<open>RangeSetBuilder.add\<close> takes the ranges sorted by \<open>from\<close> and \<open>startSide\<close>: a range
  that sorts before the range added last raises the error ``Ranges must be added sorted
  by from position and startSide'', here \<open>OrderError\<close>. \<open>finish\<close> returns the set
  built.
\<close>

type_synonym range = "nat \<times> nat \<times> decoration"
type_synonym builder = "range list"

definition add :: "builder \<Rightarrow> nat \<Rightarrow> nat \<Rightarrow> decoration \<Rightarrow> error + builder" where
  "add b f t v =
     (case b of
        [] \<Rightarrow> Inr [(f, t, v)]
      | _ # _ \<Rightarrow>
          (case last b of (lastFrom, lastTo, lastValue) \<Rightarrow>
             if f < lastFrom \<or> (f = lastFrom \<and> startSide v < startSide lastValue)
             then Inl OrderError
             else Inr (b @ [(f, t, v)])))"

definition finish :: "builder \<Rightarrow> range list" where
  "finish b = b"


section \<open>The heading decorator\<close>

lemma find_holds: "find P xs = Some x \<Longrightarrow> P x"
  by (induction xs) (auto split: if_splits)

lemma lineAt_le: "lineAt d pos = Inr l \<Longrightarrow> pos \<le> line_to l"
  by (auto simp: lineAt_def split: if_splits option.splits dest: find_holds)

text \<open>
  The \<open>while (pos <= to)\<close> loop of \<open>build\<close>, lines 110 to 145, for one visible range.
  \<open>activeNumber\<close> is \<open>activeLine.number\<close>.
\<close>

function heading_scan :: "doc \<Rightarrow> nat \<Rightarrow> nat \<Rightarrow> nat \<Rightarrow> builder \<Rightarrow> error + builder" where
  "heading_scan d activeNumber pos to builder =
     (if pos \<le> to then
        (case lineAt d pos of
           Inl e \<Rightarrow> Inl e
         | Inr line \<Rightarrow>
             if line_number line = activeNumber then
               heading_scan d activeNumber (line_to line + 1) to builder
             else
               (case str_match (line_text line) heading_rx of
                  Some m \<Rightarrow>
                    (let level = length (m ! 1);
                         markerLen = length (m ! 1) + 1;
                         markerFrom = line_from line;
                         markerTo = line_from line + markerLen
                     in (case add builder markerFrom markerTo (Replace HiddenMarkerWidget) of
                           Inl e \<Rightarrow> Inl e
                         | Inr builder1 \<Rightarrow>
                             (case add builder1 (line_from line) (line_from line)
                                     (LineClass (''md-h'' @ decimal level)) of
                                Inl e \<Rightarrow> Inl e
                              | Inr builder2 \<Rightarrow>
                                  heading_scan d activeNumber (line_to line + 1) to builder2)))
                | None \<Rightarrow> heading_scan d activeNumber (line_to line + 1) to builder))
      else Inr builder)"
  by pat_completeness auto
termination
  by (relation "measure (\<lambda>(d, a, pos, to, b). Suc to - pos)") (auto dest: lineAt_le)

declare heading_scan.simps [simp del]

text \<open>The \<open>for\<close> loop over the visible ranges, lines 107 to 146.\<close>

fun heading_ranges :: "doc \<Rightarrow> nat \<Rightarrow> (nat \<times> nat) list \<Rightarrow> builder \<Rightarrow> error + builder" where
  "heading_ranges d activeNumber [] builder = Inr builder"
| "heading_ranges d activeNumber ((from, to) # rs) builder =
     (case heading_scan d activeNumber from to builder of
        Inl e \<Rightarrow> Inl e
      | Inr builder' \<Rightarrow> heading_ranges d activeNumber rs builder')"

definition heading_build :: "view \<Rightarrow> error + range list" where
  "heading_build v =
     (case lineAt (doc v) (sel_head v) of
        Inl e \<Rightarrow> Inl e
      | Inr activeLine \<Rightarrow>
          (case heading_ranges (doc v) (line_number activeLine) (visibleRanges v) [] of
             Inl e \<Rightarrow> Inl e
           | Inr builder \<Rightarrow> Inr (finish builder)))"

section \<open>The checkbox decorator\<close>

text \<open>The \<open>while (pos <= to)\<close> loop of \<open>build\<close>, lines 184 to 215.\<close>

function checkbox_scan :: "doc \<Rightarrow> nat \<Rightarrow> nat \<Rightarrow> nat \<Rightarrow> builder \<Rightarrow> error + builder" where
  "checkbox_scan d activeNumber pos to builder =
     (if pos \<le> to then
        (case lineAt d pos of
           Inl e \<Rightarrow> Inl e
         | Inr line \<Rightarrow>
             if line_number line = activeNumber then
               checkbox_scan d activeNumber (line_to line + 1) to builder
             else
               (case str_match (line_text line) checkbox_rx of
                  Some match \<Rightarrow>
                    (let checked = (toLowerCase (match ! 1) = js ''x'');
                         bracketIndex = indexOf (line_text line) (of_char CHR ''['')
                     in if bracketIndex \<noteq> -1 then
                          (let fromAbs = line_from line + nat bracketIndex;
                               toAbs = fromAbs + 3
                           in (case add builder fromAbs toAbs
                                      (Replace (CheckboxWidget checked fromAbs toAbs)) of
                                 Inl e \<Rightarrow> Inl e
                               | Inr builder1 \<Rightarrow>
                                   checkbox_scan d activeNumber (line_to line + 1) to builder1))
                        else checkbox_scan d activeNumber (line_to line + 1) to builder)
                | None \<Rightarrow> checkbox_scan d activeNumber (line_to line + 1) to builder))
      else Inr builder)"
  by pat_completeness auto
termination
  by (relation "measure (\<lambda>(d, a, pos, to, b). Suc to - pos)") (auto dest: lineAt_le)

declare checkbox_scan.simps [simp del]

fun checkbox_ranges :: "doc \<Rightarrow> nat \<Rightarrow> (nat \<times> nat) list \<Rightarrow> builder \<Rightarrow> error + builder" where
  "checkbox_ranges d activeNumber [] builder = Inr builder"
| "checkbox_ranges d activeNumber ((from, to) # rs) builder =
     (case checkbox_scan d activeNumber from to builder of
        Inl e \<Rightarrow> Inl e
      | Inr builder' \<Rightarrow> checkbox_ranges d activeNumber rs builder')"

definition checkbox_build :: "view \<Rightarrow> error + range list" where
  "checkbox_build v =
     (case lineAt (doc v) (sel_head v) of
        Inl e \<Rightarrow> Inl e
      | Inr activeLine \<Rightarrow>
          (case checkbox_ranges (doc v) (line_number activeLine) (visibleRanges v) [] of
             Inl e \<Rightarrow> Inl e
           | Inr builder \<Rightarrow> Inr (finish builder)))"

section \<open>The plugins, the checkbox control and the component\<close>

text \<open>
  A plugin instance holds its decorations. An update carries the three flags the source
  reads and the view after the update. The constructor gives the instance, or the
  exception of \<open>build\<close>. \<open>update\<close> gives the instance after the call and the
  exception it has thrown, if any: an exception of \<open>build\<close> leaves \<open>update\<close> before
  the assignment, so the instance is as it was.
\<close>

record plugin =
  decorations :: "range list"

record view_update =
  docChanged :: bool
  viewportChanged :: bool
  selectionSet :: bool
  update_view :: view

definition heading_constructor :: "view \<Rightarrow> error + plugin" where
  "heading_constructor v =
     (case heading_build v of Inl e \<Rightarrow> Inl e | Inr ds \<Rightarrow> Inr \<lparr>decorations = ds\<rparr>)"

definition heading_update :: "plugin \<Rightarrow> view_update \<Rightarrow> plugin \<times> error option" where
  "heading_update this u =
     (if docChanged u \<or> viewportChanged u \<or> selectionSet u then
        (case heading_build (update_view u) of
           Inl e \<Rightarrow> (this, Some e)
         | Inr ds \<Rightarrow> (this\<lparr>decorations := ds\<rparr>, None))
      else (this, None))"

definition checkbox_constructor :: "view \<Rightarrow> error + plugin" where
  "checkbox_constructor v =
     (case checkbox_build v of Inl e \<Rightarrow> Inl e | Inr ds \<Rightarrow> Inr \<lparr>decorations = ds\<rparr>)"

definition checkbox_update :: "plugin \<Rightarrow> view_update \<Rightarrow> plugin \<times> error option" where
  "checkbox_update this u =
     (if docChanged u \<or> viewportChanged u \<or> selectionSet u then
        (case checkbox_build (update_view u) of
           Inl e \<Rightarrow> (this, Some e)
         | Inr ds \<Rightarrow> (this\<lparr>decorations := ds\<rparr>, None))
      else (this, None))"

text \<open>
  \<open>view.dispatch({changes: {from, to, insert}})\<close> on the document: the text between
  \<open>from\<close> and \<open>to\<close> is replaced by \<open>ins\<close>, the \<open>insert\<close> of the source; a range outside the document is
  a RangeError.
\<close>

definition dispatch_changes :: "doc \<Rightarrow> nat \<Rightarrow> nat \<Rightarrow> jstring \<Rightarrow> error + doc" where
  "dispatch_changes d from to ins =
     (if from \<le> to \<and> to \<le> length d then Inr (take from d @ ins @ drop to d)
      else Inl RangeError)"

text \<open>
  The \<open>change\<close> listener of the control, lines 53 to 57. \<open>dom_checked\<close> is
  \<open>checkbox.checked\<close> when the listener runs. The hidden marker has no listener.
\<close>

fun checkbox_change :: "widget \<Rightarrow> bool \<Rightarrow> doc \<Rightarrow> error + doc" where
  "checkbox_change (CheckboxWidget c from to) dom_checked d =
     (let next = (if dom_checked then js ''[x]'' else js ''[ ]'')
      in dispatch_changes d from to next)"
| "checkbox_change HiddenMarkerWidget dom_checked d = Inr d"

text \<open>
  Toggling the control: \<open>toDOM\<close> sets \<open>checkbox.checked\<close> to \<open>this.checked\<close>, line
  50; the user's click flips it, and then the \<open>change\<close> listener runs.
\<close>

definition toggle :: "widget \<Rightarrow> doc \<Rightarrow> error + doc" where
  "toggle w d = checkbox_change w (\<not> checked w) d"

text \<open>
  The component, lines 276 to 326: \<open>view\<close> is \<open>null\<close> until the editor is mounted;
  a mounted editor has its view and the two plugin instances.
\<close>

record EditorView =
  ev_view :: view
  ev_heading :: plugin
  ev_checkbox :: plugin

record EditorComponent =
  view :: "EditorView option"
  exported :: jstring

definition export :: "EditorComponent \<Rightarrow> EditorComponent" where
  "export this =
     (case view this of
        None \<Rightarrow> this
      | Some ev \<Rightarrow> this\<lparr>exported := doc (ev_view ev)\<rparr>)"

section \<open>Notions used in the statements\<close>

text \<open>
  The definitions of this section are not code of \<^verbatim>\<open>editor.ts\<close>: they name what the
  statements below speak about.
\<close>

text \<open>The length of the text that a list of lines stands for, each line with its break.\<close>

definition lines_total :: "jstring list \<Rightarrow> nat" where
  "lines_total ts = sum_list (map (\<lambda>t. Suc (length t)) ts)"

text \<open>The lines joined by line breaks: the inverse of \<open>split_lines\<close>.\<close>

fun join_lines :: "jstring list \<Rightarrow> jstring" where
  "join_lines [] = []"
| "join_lines [t] = t"
| "join_lines (t # t' # ts) = t @ 0x0A # join_lines (t' # ts)"

text \<open>
  The lines of the document that meet the range from \<open>pos\<close> to \<open>to\<close>, in the order of
  the document: the lines a scan of the range has to visit.
\<close>

definition lines_in :: "doc \<Rightarrow> nat \<Rightarrow> nat \<Rightarrow> line list" where
  "lines_in d pos to =
     (if pos \<le> to then filter (\<lambda>x. pos \<le> line_to x \<and> line_from x \<le> to) (doc_lines d) else [])"

text \<open>
  The ranges that the body of the heading loop, lines 111 to 144, hands to the builder
  for the line \<open>l\<close>, in the order of its calls of \<open>add\<close>, when \<open>act\<close> is the number of
  the active line.
\<close>

definition heading_line :: "nat \<Rightarrow> line \<Rightarrow> range list" where
  "heading_line act l =
     (if line_number l = act then []
      else (case str_match (line_text l) heading_rx of
              None \<Rightarrow> []
            | Some m \<Rightarrow>
                [(line_from l, line_from l + (length (m ! 1) + 1), Replace HiddenMarkerWidget),
                 (line_from l, line_from l, LineClass (''md-h'' @ decimal (length (m ! 1))))]))"

text \<open>The same for the body of the checkbox loop, lines 185 to 214.\<close>

definition checkbox_line :: "nat \<Rightarrow> line \<Rightarrow> range list" where
  "checkbox_line act l =
     (if line_number l = act then []
      else (case str_match (line_text l) checkbox_rx of
              None \<Rightarrow> []
            | Some match \<Rightarrow>
                if indexOf (line_text l) (of_char CHR ''['') \<noteq> -1 then
                  [(line_from l + nat (indexOf (line_text l) (of_char CHR ''['')),
                    line_from l + nat (indexOf (line_text l) (of_char CHR ''['')) + 3,
                    Replace (CheckboxWidget (toLowerCase (match ! 1) = js ''x'')
                      (line_from l + nat (indexOf (line_text l) (of_char CHR ''['')))
                      (line_from l + nat (indexOf (line_text l) (of_char CHR ''['')) + 3)))]
                else []))"

text \<open>Adding a list of ranges to a builder, one call of \<open>add\<close> after the other.\<close>

fun add_all :: "builder \<Rightarrow> range list \<Rightarrow> error + builder" where
  "add_all b [] = Inr b"
| "add_all b ((f, t, v) # xs) =
     (case add b f t v of Inl e \<Rightarrow> Inl e | Inr b' \<Rightarrow> add_all b' xs)"

text \<open>
  No visible range that a scan enters reaches beyond the end of the document, and the
  visible ranges come in ascending order without overlap: the editor library hands out
  such ranges only.
\<close>

definition ranges_ok :: "doc \<Rightarrow> (nat \<times> nat) list \<Rightarrow> bool" where
  "ranges_ok d rs = list_all (\<lambda>(f, t). \<not> (f \<le> t \<and> length d < t)) rs"

definition ranges_ascending :: "(nat \<times> nat) list \<Rightarrow> bool" where
  "ranges_ascending rs = sorted_wrt (\<lambda>(f1, t1) (f2, t2). t1 \<le> f2) rs"

text \<open>
  The ranges handed to the builder for all visible ranges, range by range and line by
  line, for a loop body \<open>g\<close>.
\<close>

definition ranges_decos :: "(line \<Rightarrow> range list) \<Rightarrow> doc \<Rightarrow> (nat \<times> nat) list \<Rightarrow> range list" where
  "ranges_decos g d rs = concat (map (\<lambda>(f, t). concat (map g (lines_in d f t))) rs)"

text \<open>The decorations of a set that start on the line \<open>l\<close>.\<close>

definition on_line :: "line \<Rightarrow> range list \<Rightarrow> range set" where
  "on_line l ds = set (filter (\<lambda>x. line_from l \<le> fst x \<and> fst x \<le> line_to l) ds)"

text \<open>
  The heading plugin instance after a sequence of updates; an update that throws leaves
  the instance as it was.
\<close>

fun heading_run :: "plugin \<Rightarrow> view_update list \<Rightarrow> plugin" where
  "heading_run p [] = p"
| "heading_run p (u # us) = heading_run (fst (heading_update p u)) us"

text \<open>
  How the library compares the decorations of two sets: the ranges are the same and the
  decorations are equal, two line decorations when their classes are, two replace
  decorations when their widgets are of the same class and equal by \<open>eq\<close>. The
  checkbox widget has the \<open>eq\<close> of lines 35 to 41; the hidden marker widget declares
  none and inherits the library's, which is false of two instances. \<open>same_outcome\<close>
  compares two runs of a build: both throw the same error, or both return sets that
  compare equal.
\<close>

fun widget_compare :: "widget \<Rightarrow> widget \<Rightarrow> bool" where
  "widget_compare (CheckboxWidget c f t) (CheckboxWidget c' f' t') =
     checkbox_eq (CheckboxWidget c f t) (CheckboxWidget c' f' t')"
| "widget_compare _ _ = False"

fun deco_eq :: "decoration \<Rightarrow> decoration \<Rightarrow> bool" where
  "deco_eq (Replace w) (Replace w') = widget_compare w w'"
| "deco_eq (LineClass c) (LineClass c') = (c = c')"
| "deco_eq _ _ = False"

fun range_eq :: "range \<Rightarrow> range \<Rightarrow> bool" where
  "range_eq (f, t, v) (f', t', v') \<longleftrightarrow> f = f' \<and> t = t' \<and> deco_eq v v'"

fun same_outcome :: "error + range list \<Rightarrow> error + range list \<Rightarrow> bool" where
  "same_outcome (Inl e) (Inl e') \<longleftrightarrow> e = e'"
| "same_outcome (Inr ds) (Inr ds') \<longleftrightarrow> list_all2 range_eq ds ds'"
| "same_outcome _ _ \<longleftrightarrow> False"

section \<open>Lines of a document\<close>

lemma lines_total_Cons [simp]: "lines_total (t # ts) = Suc (length t) + lines_total ts"
  by (simp add: lines_total_def)

lemma lines_total_Nil [simp]: "lines_total [] = 0"
  by (simp add: lines_total_def)

lemma split_lines_ne: "split_lines d \<noteq> []"
  by (induction d) (auto split: list.splits)

lemma lines_total_split: "lines_total (split_lines d) = Suc (length d)"
  by (induction d) (auto split: list.splits simp: lines_total_def)

lemma mk_lines_bounds:
  "x \<in> set (mk_lines off n ts) \<Longrightarrow>
     off \<le> line_from x \<and> line_to x = line_from x + length (line_text x) \<and>
     Suc (line_to x) \<le> off + lines_total ts \<and> n \<le> line_number x"
proof (induction ts arbitrary: off n)
  case Nil then show ?case by simp
next
  case (Cons t ts)
  from Cons.prems consider
    "x = \<lparr>line_from = off, line_to = off + length t, line_number = n, line_text = t\<rparr>"
    | "x \<in> set (mk_lines (off + length t + 1) (Suc n) ts)" by auto
  then show ?case
  proof cases
    case 1 then show ?thesis by simp
  next
    case 2
    from Cons.IH[OF 2] show ?thesis by simp
  qed
qed

lemma mk_lines_find_from:
  "find (\<lambda>l. pos \<le> line_to l) (mk_lines off n ts) = Some l \<Longrightarrow> off \<le> pos \<Longrightarrow> line_from l \<le> pos"
proof (induction ts arbitrary: off n)
  case Nil then show ?case by simp
next
  case (Cons t ts)
  show ?case
  proof (cases "pos \<le> off + length t")
    case True with Cons.prems show ?thesis by auto
  next
    case False
    with Cons.prems have "find (\<lambda>l. pos \<le> line_to l) (mk_lines (off + length t + 1) (Suc n) ts) = Some l"
      by simp
    from Cons.IH[OF this] False show ?thesis by simp
  qed
qed

lemma find_mem: "find P xs = Some l \<Longrightarrow> l \<in> set xs"
  by (induction xs) (auto split: if_splits)

lemma mk_lines_find_some:
  "ts \<noteq> [] \<Longrightarrow> Suc pos \<le> off + lines_total ts \<Longrightarrow>
     \<exists>l. find (\<lambda>l. pos \<le> line_to l) (mk_lines off n ts) = Some l"
proof (induction ts arbitrary: off n)
  case Nil then show ?case by simp
next
  case (Cons t ts)
  show ?case
  proof (cases "pos \<le> off + length t")
    case True then show ?thesis by simp
  next
    case False
    with Cons.prems have "ts \<noteq> []" by (cases ts) auto
    moreover from Cons.prems False have "Suc pos \<le> (off + length t + 1) + lines_total ts" by simp
    ultimately obtain l where "find (\<lambda>l. pos \<le> line_to l) (mk_lines (off + length t + 1) (Suc n) ts) = Some l"
      using Cons.IH by blast
    with False show ?thesis by simp
  qed
qed

lemma mk_lines_number_inj:
  "x \<in> set (mk_lines off n ts) \<Longrightarrow> y \<in> set (mk_lines off n ts) \<Longrightarrow>
     line_number x = line_number y \<Longrightarrow> x = y"
proof (induction ts arbitrary: off n)
  case Nil then show ?case by simp
next
  case (Cons t ts)
  let ?h = "\<lparr>line_from = off, line_to = off + length t, line_number = n, line_text = t\<rparr>"
  let ?r = "mk_lines (off + length t + 1) (Suc n) ts"
  have r: "\<And>z. z \<in> set ?r \<Longrightarrow> line_number z \<noteq> n"
    using mk_lines_bounds by fastforce
  from Cons.prems have "x = ?h \<or> x \<in> set ?r" "y = ?h \<or> y \<in> set ?r" by auto
  then show ?case using Cons.IH Cons.prems(3) r[of x] r[of y] by auto
qed

lemma mk_lines_disjoint:
  "x \<in> set (mk_lines off n ts) \<Longrightarrow> y \<in> set (mk_lines off n ts) \<Longrightarrow>
     x \<noteq> y \<Longrightarrow> line_to x < line_from y \<or> line_to y < line_from x"
proof (induction ts arbitrary: off n)
  case Nil then show ?case by simp
next
  case (Cons t ts)
  let ?h = "\<lparr>line_from = off, line_to = off + length t, line_number = n, line_text = t\<rparr>"
  let ?r = "mk_lines (off + length t + 1) (Suc n) ts"
  have r: "\<And>z. z \<in> set ?r \<Longrightarrow> line_to ?h < line_from z"
    using mk_lines_bounds by fastforce
  from Cons.prems have "x = ?h \<or> x \<in> set ?r" "y = ?h \<or> y \<in> set ?r" by auto
  then show ?case using Cons.IH Cons.prems(3) r[of x] r[of y] by auto
qed

lemma mk_lines_distinct: "distinct (map line_number (mk_lines off n ts))"
proof (induction ts arbitrary: off n)
  case Nil then show ?case by simp
next
  case (Cons t ts)
  have "n \<notin> line_number ` set (mk_lines (off + length t + 1) (Suc n) ts)"
    using mk_lines_bounds by fastforce
  with Cons show ?case by simp
qed

lemma mk_lines_sorted: "sorted_wrt (\<lambda>a b. line_to a < line_from b) (mk_lines off n ts)"
proof (induction ts arbitrary: off n)
  case Nil then show ?case by simp
next
  case (Cons t ts)
  have "\<And>z. z \<in> set (mk_lines (off + length t + 1) (Suc n) ts) \<Longrightarrow> off + length t < line_from z"
    using mk_lines_bounds by fastforce
  with Cons show ?case by simp
qed

lemma join_split: "join_lines (split_lines d) = d"
proof (induction d)
  case Nil then show ?case by simp
next
  case (Cons c d)
  obtain l ls where s: "split_lines d = l # ls" using split_lines_ne[of d] by (cases "split_lines d") auto
  with Cons show ?case by (cases ls) auto
qed

lemma mk_lines_text:
  "x \<in> set (mk_lines off n ts) \<Longrightarrow>
     line_text x = take (length (line_text x)) (drop (line_from x - off) (join_lines ts))"
proof (induction ts arbitrary: off n rule: join_lines.induct)
  case 1 then show ?case by simp
next
  case (2 t) then show ?case by auto
next
  case (3 t t' ts)
  show ?case
  proof (cases "x = \<lparr>line_from = off, line_to = off + length t, line_number = n, line_text = t\<rparr>")
    case True then show ?thesis by simp
  next
    case False
    with 3(2) have m: "x \<in> set (mk_lines (off + length t + 1) (Suc n) (t' # ts))" by simp
    from mk_lines_bounds[OF m] have b: "Suc (off + length t) \<le> line_from x" by simp
    then have e: "line_from x - off = length t + Suc (line_from x - (off + length t + 1))" by simp
    have "drop (line_from x - off) (join_lines (t # t' # ts))
        = drop (line_from x - (off + length t + 1)) (join_lines (t' # ts))"
      unfolding e by (simp add: drop_append del: join_lines.simps(3)) (simp)
    with 3(1)[OF m] show ?thesis by simp
  qed
qed

subsection \<open>Facts about \<open>lineAt\<close> and the lines of a range\<close>

lemma lineAt_mem: "lineAt d pos = Inr l \<Longrightarrow> l \<in> set (doc_lines d)"
  by (auto simp: lineAt_def split: if_splits option.splits dest: find_mem)

lemma lineAt_from: "lineAt d pos = Inr l \<Longrightarrow> line_from l \<le> pos"
  by (auto simp: lineAt_def doc_lines_def split: if_splits option.splits dest: mk_lines_find_from)

lemma lineAt_ok: "pos \<le> length d \<Longrightarrow> \<exists>l. lineAt d pos = Inr l"
  using mk_lines_find_some[of "split_lines d" pos 0 1]
  by (auto simp: lineAt_def doc_lines_def split_lines_ne lines_total_split)

lemma lineAt_error: "length d < pos \<Longrightarrow> lineAt d pos = Inl RangeError"
  by (simp add: lineAt_def)

lemma doc_lines_to: "l \<in> set (doc_lines d) \<Longrightarrow> line_to l \<le> length d"
  using mk_lines_bounds[of l 0 1 "split_lines d"] by (simp add: doc_lines_def lines_total_split)

lemma doc_lines_len: "l \<in> set (doc_lines d) \<Longrightarrow> line_to l = line_from l + length (line_text l)"
  using mk_lines_bounds[of l 0 1 "split_lines d"] by (simp add: doc_lines_def)

lemma doc_lines_text:
  "l \<in> set (doc_lines d) \<Longrightarrow> line_text l = take (length (line_text l)) (drop (line_from l) d)"
  using mk_lines_text[of l 0 1 "split_lines d"] by (simp add: doc_lines_def join_split)

lemma doc_lines_number_inj:
  "x \<in> set (doc_lines d) \<Longrightarrow> y \<in> set (doc_lines d) \<Longrightarrow> line_number x = line_number y \<Longrightarrow> x = y"
  unfolding doc_lines_def by (rule mk_lines_number_inj)

lemma doc_lines_disjoint:
  "x \<in> set (doc_lines d) \<Longrightarrow> y \<in> set (doc_lines d) \<Longrightarrow> x \<noteq> y \<Longrightarrow>
     line_to x < line_from y \<or> line_to y < line_from x"
  unfolding doc_lines_def by (rule mk_lines_disjoint)

lemma doc_lines_distinct: "distinct (doc_lines d)"
  using mk_lines_distinct[of 0 1 "split_lines d"] by (simp add: doc_lines_def distinct_map)

lemma doc_lines_sorted: "sorted_wrt (\<lambda>a b. line_to a < line_from b) (doc_lines d)"
  unfolding doc_lines_def by (rule mk_lines_sorted)

lemma mk_lines_filter_step:
  "find (\<lambda>x. pos \<le> line_to x) (mk_lines off n ts) = Some l \<Longrightarrow> off \<le> pos \<Longrightarrow> pos \<le> to \<Longrightarrow>
     filter (\<lambda>x. pos \<le> line_to x \<and> line_from x \<le> to) (mk_lines off n ts)
       = l # filter (\<lambda>x. Suc (line_to l) \<le> line_to x \<and> line_from x \<le> to) (mk_lines off n ts)"
proof (induction ts arbitrary: off n)
  case Nil then show ?case by simp
next
  case (Cons t ts)
  let ?h = "\<lparr>line_from = off, line_to = off + length t, line_number = n, line_text = t\<rparr>"
  let ?r = "mk_lines (off + length t + 1) (Suc n) ts"
  have r: "\<And>z. z \<in> set ?r \<Longrightarrow> Suc (off + length t) \<le> line_from z \<and> line_from z \<le> line_to z"
    using mk_lines_bounds by fastforce
  show ?case
  proof (cases "pos \<le> off + length t")
    case True
    with Cons.prems have l: "l = ?h" by simp
    have "filter (\<lambda>x. pos \<le> line_to x \<and> line_from x \<le> to) ?r
        = filter (\<lambda>x. Suc (line_to l) \<le> line_to x \<and> line_from x \<le> to) ?r"
      by (rule filter_cong) (use r True l in fastforce)+
    with True Cons.prems(2,3) l show ?thesis by simp
  next
    case False
    with Cons.prems have f: "find (\<lambda>x. pos \<le> line_to x) ?r = Some l" by simp
    from r[OF find_mem[OF f]] have "\<not> Suc (line_to l) \<le> off + length t" by simp
    with Cons.IH[OF f] False Cons.prems(3) show ?thesis by simp
  qed
qed

lemma lines_in_step:
  assumes "lineAt d pos = Inr l" "pos \<le> to"
  shows "lines_in d pos to = l # lines_in d (line_to l + 1) to"
proof -
  from assms(1) have f: "find (\<lambda>x. pos \<le> line_to x) (mk_lines 0 1 (split_lines d)) = Some l"
    by (auto simp: lineAt_def doc_lines_def split: if_splits option.splits)
  have "filter (\<lambda>x. Suc (line_to l) \<le> line_to x \<and> line_from x \<le> to) (doc_lines d) = []" if "\<not> Suc (line_to l) \<le> to"
  proof -
    have "\<not> (Suc (line_to l) \<le> line_to x \<and> line_from x \<le> to)" if x: "x \<in> set (doc_lines d)" for x
      using doc_lines_disjoint[OF x lineAt_mem[OF assms(1)]] doc_lines_len[OF x]
        doc_lines_len[OF lineAt_mem[OF assms(1)]] \<open>\<not> Suc (line_to l) \<le> to\<close>
      by (cases "x = l") auto
    then show ?thesis by (auto simp: filter_empty_conv)
  qed
  with mk_lines_filter_step[OF f _ assms(2)] assms(2) show ?thesis
    by (auto simp: lines_in_def doc_lines_def)
qed

lemma lines_in_stop: "\<not> pos \<le> to \<Longrightarrow> lines_in d pos to = []"
  by (simp add: lines_in_def)

lemma lines_in_sorted: "sorted_wrt (\<lambda>a b. line_to a < line_from b) (lines_in d pos to)"
  by (simp add: lines_in_def sorted_wrt_filter doc_lines_sorted)

lemma lines_in_mem:
  "l \<in> set (lines_in d pos to) \<longleftrightarrow>
     l \<in> set (doc_lines d) \<and> pos \<le> to \<and> pos \<le> line_to l \<and> line_from l \<le> to"
  by (auto simp: lines_in_def)

section \<open>Facts about the two patterns\<close>

lemma in_Bol: "(e, c, r) \<in> set (rx_run Bol (pos, caps, rest)) \<longleftrightarrow> pos = 0 \<and> e = 0 \<and> c = caps \<and> r = rest"
  by auto

lemma in_Eol: "(e, c, r) \<in> set (rx_run Eol (pos, caps, rest)) \<longleftrightarrow> rest = [] \<and> e = pos \<and> c = caps \<and> r = []"
  by auto

lemma in_Cls: "(e, c, r) \<in> set (rx_run (Cls p) (pos, caps, rest)) \<longleftrightarrow>
    (\<exists>x. rest = x # r \<and> p x \<and> e = Suc pos \<and> c = caps)"
  by (auto split: list.splits)

lemma set_Rep: "set (rx_run (Rep lo hi p) (pos, caps, rest)) =
    (\<lambda>k. (pos + k, caps, drop k rest)) `
       {k. lo \<le> k \<and> k \<le> length (takeWhile p rest) \<and> (case hi of None \<Rightarrow> True | Some h \<Rightarrow> k \<le> h)}"
proof -
  have "{lo..<Suc (case hi of None \<Rightarrow> length (takeWhile p rest) | Some h \<Rightarrow> min (length (takeWhile p rest)) h)}
     = {k. lo \<le> k \<and> k \<le> length (takeWhile p rest) \<and> (case hi of None \<Rightarrow> True | Some h \<Rightarrow> k \<le> h)}"
    by (cases hi) auto
  then show ?thesis by (simp only: rx_run.simps Let_def set_map set_rev set_upt)
qed

lemma in_Rep: "(e, c, r) \<in> set (rx_run (Rep lo hi p) (pos, caps, rest)) \<longleftrightarrow>
    (\<exists>k. lo \<le> k \<and> k \<le> length (takeWhile p rest) \<and> (case hi of None \<Rightarrow> True | Some h \<Rightarrow> k \<le> h) \<and>
         e = pos + k \<and> c = caps \<and> r = drop k rest)"
  unfolding set_Rep by (simp only: image_iff Bex_def mem_Collect_eq prod.inject) blast

lemma in_Cat: "s' \<in> set (rx_run (Cat a b) s) \<longleftrightarrow>
   (\<exists>e c r. (e, c, r) \<in> set (rx_run a s) \<and> s' \<in> set (rx_run b (e, c, r)))"
  by auto

lemma in_Alt: "s' \<in> set (rx_run (Alt a b) s) \<longleftrightarrow> s' \<in> set (rx_run a s) \<or> s' \<in> set (rx_run b s)"
  by auto

lemma in_Grp: "(e, c, r) \<in> set (rx_run (Grp a) (pos, caps, rest)) \<longleftrightarrow>
    (\<exists>c'. (e, c', r) \<in> set (rx_run a (pos, caps, rest)) \<and> c = c' @ [take (e - pos) rest])"
  by (auto simp: image_iff) force

lemmas in_rx = in_Bol in_Eol in_Cls in_Rep in_Cat in_Alt in_Grp

lemma rx_exec_anchored_None: "rx_exec_at (Cat Bol r) (Suc p) s = None"
  by (induction s arbitrary: p) auto

lemma str_match_anchored:
  "str_match s (Cat Bol r) =
     (case rx_run r (0, [], s) of [] \<Rightarrow> None | (e, caps, _) # _ \<Rightarrow> Some (take e s # caps))"
  by (cases s) (auto simp: str_match_def rx_exec_anchored_None split: list.splits)

lemma str_match_anchored_None:
  "str_match s (Cat Bol r) = None \<longleftrightarrow> \<not> (\<exists>e c r'. (e, c, r') \<in> set (rx_run r (0, [], s)))"
  unfolding str_match_anchored by (cases "rx_run r (0, [], s)") (auto simp del: rx_run.simps)

lemma str_match_anchored_Some:
  "str_match s (Cat Bol r) = Some m \<Longrightarrow> \<exists>e c r'. (e, c, r') \<in> set (rx_run r (0, [], s)) \<and> m = take e s # c"
  unfolding str_match_anchored by (cases "rx_run r (0, [], s)") (auto simp del: rx_run.simps)

lemma heading_spec_iff:
  "str_match s heading_spec_rx = None \<longleftrightarrow> str_match s heading_rx = None"
  unfolding heading_spec_rx_def heading_rx_def str_match_anchored_None
  apply (simp add: in_rx del: rx_run.simps)
  apply (rule iffI)
   apply blast
  apply (intro allI impI)
  subgoal for e r' ea eb r
    apply (erule allE[of _ e], erule allE[of _ "[take ea s, take (e - eb) r]"])
    apply blast
    done
  done

lemma takeWhile_first: "Suc 0 \<le> j \<Longrightarrow> j \<le> length (takeWhile P xs) \<Longrightarrow> xs \<noteq> [] \<and> P (hd xs)"
  by (cases xs) (auto split: if_splits)

lemma takeWhile_holds: "k < length (takeWhile P xs) \<Longrightarrow> P (xs ! k)"
  using nth_mem[of k "takeWhile P xs"] by (auto simp: takeWhile_nth dest: set_takeWhileD)

lemma take_le_takeWhile: "k \<le> length (takeWhile P xs) \<Longrightarrow> x \<in> set (take k xs) \<Longrightarrow> P x"
  by (metis in_set_conv_nth length_take min_less_iff_conj nth_take order_less_le_trans takeWhile_holds)

lemma hash_not_space: "is_chr CHR ''#'' c \<Longrightarrow> \<not> is_space c"
  by (simp add: is_chr_def is_space_def)

lemma heading_match_Some:
  assumes "str_match s heading_rx = Some m"
  shows "length m = 3 \<and> m ! 1 = takeWhile (is_chr CHR ''#'') s \<and> 1 \<le> length (m ! 1) \<and>
         length (m ! 1) \<le> 6 \<and> length (m ! 1) < length s \<and> is_space (s ! length (m ! 1))"
proof -
  let ?n = "length (takeWhile (is_chr CHR ''#'') s)"
  from str_match_anchored_Some[OF assms[unfolded heading_rx_def]]
  obtain k j c0 c2 where k: "Suc 0 \<le> k" "k \<le> 6" "k \<le> ?n"
    and j: "Suc 0 \<le> j" "j \<le> length (takeWhile is_space (drop k s))"
    and m: "m = [c0, take k s, c2]"
    by (auto simp: in_rx simp del: rx_run.simps)
  from takeWhile_first[OF j] have ks: "k < length s" "is_space (s ! k)"
    by (auto simp: hd_drop_conv_nth)
  have "\<not> k < ?n" using takeWhile_holds[of k "is_chr CHR ''#''" s] ks(2) hash_not_space by blast
  with k have kn: "k = ?n" by simp
  have "take ?n s = takeWhile (is_chr CHR ''#'') s" by (rule takeWhile_eq_take[symmetric])
  with kn m k ks show ?thesis by simp
qed

lemma heading_match_level:
  assumes "str_match s heading_rx = Some m"
  shows "1 \<le> length (takeWhile (is_chr CHR ''#'') s) \<and> length (takeWhile (is_chr CHR ''#'') s) \<le> 6 \<and>
         length (takeWhile (is_chr CHR ''#'') s) < length s \<and>
         is_space (s ! length (takeWhile (is_chr CHR ''#'') s))"
proof -
  from heading_match_Some[OF assms] have e: "m ! 1 = takeWhile (is_chr CHR ''#'') s" by blast
  from heading_match_Some[OF assms] show ?thesis unfolding e by blast
qed

lemma checkbox_match_Some:
  assumes "str_match s checkbox_rx = Some m"
  shows "\<exists>ws1 ws2 c rest.
           s = ws1 @ of_char CHR ''-'' # ws2 @ of_char CHR ''['' # c # of_char CHR '']'' # rest \<and>
           (\<forall>x\<in>set ws1. is_space x) \<and> (\<forall>x\<in>set ws2. is_space x) \<and>
           (c = of_char CHR '' '' \<or> c = of_char CHR ''x'' \<or> c = of_char CHR ''X'') \<and>
           m = [ws1 @ of_char CHR ''-'' # ws2 @ [of_char CHR ''['', c, of_char CHR '']''], [c]]"
proof -
  from str_match_anchored_Some[OF assms[unfolded checkbox_rx_def]]
  obtain k1 r1 k2 c rest where k1: "k1 \<le> length (takeWhile is_space s)"
    and d1: "drop k1 s = of_char CHR ''-'' # r1"
    and k2: "k2 \<le> length (takeWhile is_space r1)"
    and d2: "of_char CHR ''['' # c # of_char CHR '']'' # rest = drop k2 r1"
    and c: "c = of_char CHR '' '' \<or> c = of_char CHR ''x'' \<or> c = of_char CHR ''X''"
    and m: "m = [take (Suc (Suc (Suc (Suc (k1 + k2))))) s, [c]]"
    by (auto simp: in_rx is_chr_def simp del: rx_run.simps)
  define ws1 where "ws1 = take k1 s"
  define ws2 where "ws2 = take k2 r1"
  have l1: "length ws1 = k1" using d1 unfolding ws1_def
    by (cases "k1 \<le> length s") auto
  have l2: "length ws2 = k2" using d2 unfolding ws2_def
    by (cases "k2 \<le> length r1") auto
  have "s = ws1 @ drop k1 s" "r1 = ws2 @ drop k2 r1" by (simp_all add: ws1_def ws2_def)
  with d1 d2 have s: "s = ws1 @ of_char CHR ''-'' # ws2 @ of_char CHR ''['' # c # of_char CHR '']'' # rest"
    by metis
  let ?A = "ws1 @ of_char CHR ''-'' # ws2 @ [of_char CHR ''['', c, of_char CHR '']'']"
  have "s = ?A @ rest" by (subst s) simp
  moreover have "length ?A = Suc (Suc (Suc (Suc (k1 + k2))))" by (simp add: l1 l2)
  ultimately have "take (Suc (Suc (Suc (Suc (k1 + k2))))) s = ?A"
    by (metis append_eq_conv_conj)
  moreover have "\<forall>x\<in>set ws1. is_space x" "\<forall>x\<in>set ws2. is_space x"
    using take_le_takeWhile[OF k1] take_le_takeWhile[OF k2] by (auto simp: ws1_def ws2_def)
  ultimately show ?thesis using m s c by blast
qed

lemma lbr_not_space: "\<not> is_space (of_char CHR ''['')" "\<not> is_chr CHR ''-'' (of_char CHR ''['')"
  "of_char CHR ''-'' \<noteq> (of_char CHR ''['' :: cu)"
  by (simp_all add: is_space_def is_chr_def)

lemma indexOf_prefix:
  assumes "\<forall>x\<in>set pre. x \<noteq> c"
  shows "indexOf (pre @ c # rest) c = int (length pre)"
  using assms by (simp add: indexOf_def takeWhile_append2)

lemma checkbox_match_index:
  assumes "str_match s checkbox_rx = Some m"
  shows "\<exists>i c. indexOf s (of_char CHR ''['') = int i \<and> i + 3 \<le> length s \<and>
           take 3 (drop i s) = [of_char CHR ''['', c, of_char CHR '']''] \<and>
           (c = of_char CHR '' '' \<or> c = of_char CHR ''x'' \<or> c = of_char CHR ''X'') \<and>
           m = [take (i + 3) s, [c]] \<and> (\<forall>j<i. s ! j \<noteq> of_char CHR ''['')"
proof -
  from checkbox_match_Some[OF assms] obtain ws1 ws2 c rest where
    s: "s = ws1 @ of_char CHR ''-'' # ws2 @ of_char CHR ''['' # c # of_char CHR '']'' # rest"
    and w: "\<forall>x\<in>set ws1. is_space x" "\<forall>x\<in>set ws2. is_space x"
    and c: "c = of_char CHR '' '' \<or> c = of_char CHR ''x'' \<or> c = of_char CHR ''X''"
    and m: "m = [ws1 @ of_char CHR ''-'' # ws2 @ [of_char CHR ''['', c, of_char CHR '']''], [c]]"
    by blast
  let ?pre = "ws1 @ of_char CHR ''-'' # ws2"
  let ?i = "length ?pre"
  have pre: "\<forall>x\<in>set ?pre. x \<noteq> of_char CHR ''[''"
    using w lbr_not_space by auto
  have s': "s = ?pre @ of_char CHR ''['' # (c # of_char CHR '']'' # rest)" using s by simp
  have 1: "indexOf s (of_char CHR ''['') = int ?i"
    by (subst s') (rule indexOf_prefix[OF pre])
  have 2: "drop ?i s = of_char CHR ''['' # c # of_char CHR '']'' # rest"
    by (subst s') (simp del: append_assoc)
  have 3: "take (?i + 3) s = ?pre @ [of_char CHR ''['', c, of_char CHR '']'']"
    by (subst s') (simp del: append_assoc)
  have 4: "\<forall>j<?i. s ! j \<noteq> of_char CHR ''[''"
  proof (intro allI impI)
    fix j assume "j < ?i"
    then have "s ! j = ?pre ! j" by (subst s') (simp only: nth_append if_True)
    with pre \<open>j < ?i\<close> show "s ! j \<noteq> of_char CHR ''[''" by (metis nth_mem)
  qed
  have 5: "?i + 3 \<le> length s" by (subst s') simp
  from 1 2 3 4 5 c m show ?thesis
    by (intro exI[of _ ?i] exI[of _ c]) simp
qed

lemma toLowerCase_token:
  "c = of_char CHR '' '' \<or> c = of_char CHR ''x'' \<or> c = of_char CHR ''X'' \<Longrightarrow>
     toLowerCase [c] = js ''x'' \<longleftrightarrow> c = of_char CHR ''x'' \<or> c = of_char CHR ''X''"
  by (auto simp: toLowerCase_def js_def)

lemma dash_not_space: "\<not> is_space (of_char CHR ''-'')"
  by (simp add: is_space_def)

lemma split_at_first_nonspace:
  assumes "a @ x # r = a' @ x # r'" "\<forall>c\<in>set a. is_space c" "\<forall>c\<in>set a'. is_space c" "\<not> is_space x"
  shows "a = a' \<and> r = r'"
proof -
  have "takeWhile is_space (a @ x # r) = a" "takeWhile is_space (a' @ x # r') = a'"
    using assms(2-4) by (simp_all add: takeWhile_append2)
  with assms(1) have "a = a'" by simp
  with assms(1) show ?thesis by simp
qed

lemma checkbox_malformed_None:
  assumes s: "s = ws1 @ of_char CHR ''-'' # ws2 @ of_char CHR ''['' # rest"
    and w: "list_all is_space ws1" "list_all is_space ws2"
    and bad: "\<not> (\<exists>c r. rest = c # of_char CHR '']'' # r \<and>
                 (c = of_char CHR '' '' \<or> c = of_char CHR ''x'' \<or> c = of_char CHR ''X''))"
  shows "str_match s checkbox_rx = None"
proof (cases "str_match s checkbox_rx")
  case None then show ?thesis .
next
  case (Some m)
  from checkbox_match_Some[OF Some] obtain a b c r where
    s': "s = a @ of_char CHR ''-'' # b @ of_char CHR ''['' # c # of_char CHR '']'' # r"
    and w': "\<forall>x\<in>set a. is_space x" "\<forall>x\<in>set b. is_space x"
    and c: "c = of_char CHR '' '' \<or> c = of_char CHR ''x'' \<or> c = of_char CHR ''X''"
    by blast
  from w have w2: "\<forall>x\<in>set ws1. is_space x" "\<forall>x\<in>set ws2. is_space x"
    by (simp_all add: list_all_iff)
  from s s' have "ws1 @ of_char CHR ''-'' # (ws2 @ of_char CHR ''['' # rest)
       = a @ of_char CHR ''-'' # (b @ of_char CHR ''['' # c # of_char CHR '']'' # r)" by simp
  from split_at_first_nonspace[OF this w2(1) w'(1) dash_not_space]
  have "ws2 @ of_char CHR ''['' # rest = b @ of_char CHR ''['' # (c # of_char CHR '']'' # r)" by simp
  from split_at_first_nonspace[OF this w2(2) w'(2) lbr_not_space(1)]
  have "rest = c # of_char CHR '']'' # r" by simp
  with bad c show ?thesis by blast
qed

section \<open>The builder and the scans, line by line\<close>

lemma add_Inr: "add b f t v = Inr b' \<Longrightarrow> b' = b @ [(f, t, v)]"
  by (auto simp: add_def split: list.splits prod.splits if_splits)

lemma add_all_Inr: "add_all b xs = Inr b' \<Longrightarrow> b' = b @ xs"
proof (induction xs arbitrary: b)
  case Nil then show ?case by simp
next
  case (Cons x xs)
  obtain f t v where x: "x = (f, t, v)" by (cases x) auto
  from Cons.prems x obtain b1 where b1: "add b f t v = Inr b1" "add_all b1 xs = Inr b'"
    by (auto split: sum.splits)
  from add_Inr[OF b1(1)] Cons.IH[OF b1(2)] x show ?case by simp
qed

lemma add_all_append:
  "add_all b (xs @ ys) = (case add_all b xs of Inl e \<Rightarrow> Inl e | Inr b' \<Rightarrow> add_all b' ys)"
proof (induction xs arbitrary: b)
  case Nil then show ?case by simp
next
  case (Cons x xs)
  obtain f t v where x: "x = (f, t, v)" by (cases x) auto
  show ?case unfolding x by (cases "add b f t v") (simp_all add: Cons.IH)
qed

lemma add_error: "add b f t v = Inl e \<Longrightarrow> e = OrderError"
  by (auto simp: add_def split: list.splits prod.splits if_splits)

lemma add_all_error: "add_all b xs = Inl e \<Longrightarrow> e = OrderError"
proof (induction xs arbitrary: b)
  case Nil then show ?case by simp
next
  case (Cons x xs)
  obtain f t v where x: "x = (f, t, v)" by (cases x) auto
  from Cons.prems show ?case unfolding x
    by (cases "add b f t v") (auto dest: add_error Cons.IH)
qed

lemma heading_scan_step:
  "heading_scan d act pos to b =
     (if pos \<le> to then
        (case lineAt d pos of
           Inl e \<Rightarrow> Inl e
         | Inr l \<Rightarrow>
             (case add_all b (heading_line act l) of
                Inl e \<Rightarrow> Inl e
              | Inr b' \<Rightarrow> heading_scan d act (line_to l + 1) to b'))
      else Inr b)"
  by (subst heading_scan.simps)
     (simp add: heading_line_def Let_def split: sum.splits option.splits)

lemma checkbox_scan_step:
  "checkbox_scan d act pos to b =
     (if pos \<le> to then
        (case lineAt d pos of
           Inl e \<Rightarrow> Inl e
         | Inr l \<Rightarrow>
             (case add_all b (checkbox_line act l) of
                Inl e \<Rightarrow> Inl e
              | Inr b' \<Rightarrow> checkbox_scan d act (line_to l + 1) to b'))
      else Inr b)"
  by (subst checkbox_scan.simps)
     (simp add: checkbox_line_def Let_def split: sum.splits option.splits)

lemma scan_generic:
  assumes step: "\<And>pos b. F pos b =
     (if pos \<le> to then
        (case lineAt d pos of
           Inl e \<Rightarrow> Inl e
         | Inr l \<Rightarrow> (case add_all b (g l) of Inl e \<Rightarrow> Inl e | Inr b' \<Rightarrow> F (line_to l + 1) b'))
      else Inr b)"
  shows "F pos b =
     (case add_all b (concat (map g (lines_in d pos to))) of
        Inl e \<Rightarrow> Inl e
      | Inr b' \<Rightarrow> if pos \<le> to \<and> length d < to then Inl RangeError else Inr b')"
proof (induction "Suc to - pos" arbitrary: pos b rule: less_induct)
  case less
  show ?case
  proof (cases "pos \<le> to")
    case False
    then show ?thesis by (subst step) (simp add: lines_in_stop)
  next
    case True
    show ?thesis
    proof (cases "length d < pos")
      case out: True
      have "lines_in d pos to = []"
        using out doc_lines_to[of _ d] by (fastforce simp: lines_in_def filter_empty_conv)
      with True out show ?thesis by (subst step) (simp add: lineAt_error)
    next
      case False
      then obtain l where l: "lineAt d pos = Inr l" using lineAt_ok[of pos d] by auto
      have le: "pos \<le> line_to l" "line_to l \<le> length d"
        using lineAt_le[OF l] doc_lines_to[OF lineAt_mem[OF l]] by auto
      from le True have "Suc to - (line_to l + 1) < Suc to - pos" by simp
      note ih = less[OF this]
      have "F pos b = (case add_all b (g l) of Inl e \<Rightarrow> Inl e | Inr b' \<Rightarrow> F (line_to l + 1) b')"
        using True l by (subst step) simp
      with ih le True show ?thesis
        by (auto simp: lines_in_step[OF l True] add_all_append split: sum.splits)
    qed
  qed
qed

lemma heading_scan_eq:
  "heading_scan d act pos to b =
     (case add_all b (concat (map (heading_line act) (lines_in d pos to))) of
        Inl e \<Rightarrow> Inl e
      | Inr b' \<Rightarrow> if pos \<le> to \<and> length d < to then Inl RangeError else Inr b')"
  by (rule scan_generic) (rule heading_scan_step)

lemma checkbox_scan_eq:
  "checkbox_scan d act pos to b =
     (case add_all b (concat (map (checkbox_line act) (lines_in d pos to))) of
        Inl e \<Rightarrow> Inl e
      | Inr b' \<Rightarrow> if pos \<le> to \<and> length d < to then Inl RangeError else Inr b')"
  by (rule scan_generic) (rule checkbox_scan_step)

lemma heading_ranges_Inr:
  "heading_ranges d act rs b = Inr b' \<longleftrightarrow>
     ranges_ok d rs \<and> add_all b (ranges_decos (heading_line act) d rs) = Inr b'"
  by (induction rs arbitrary: b)
     (auto simp: heading_scan_eq ranges_ok_def ranges_decos_def add_all_append split: sum.splits if_splits)

lemma checkbox_ranges_Inr:
  "checkbox_ranges d act rs b = Inr b' \<longleftrightarrow>
     ranges_ok d rs \<and> add_all b (ranges_decos (checkbox_line act) d rs) = Inr b'"
  by (induction rs arbitrary: b)
     (auto simp: checkbox_scan_eq ranges_ok_def ranges_decos_def add_all_append split: sum.splits if_splits)

lemma heading_build_Inr:
  "heading_build v = Inr ds \<longleftrightarrow>
     (\<exists>al. lineAt (doc v) (sel_head v) = Inr al \<and> ranges_ok (doc v) (visibleRanges v) \<and>
           add_all [] (ranges_decos (heading_line (line_number al)) (doc v) (visibleRanges v)) = Inr ds)"
  unfolding heading_ranges_Inr[symmetric]
  by (auto simp: heading_build_def finish_def split: sum.splits)

lemma checkbox_build_Inr:
  "checkbox_build v = Inr ds \<longleftrightarrow>
     (\<exists>al. lineAt (doc v) (sel_head v) = Inr al \<and> ranges_ok (doc v) (visibleRanges v) \<and>
           add_all [] (ranges_decos (checkbox_line (line_number al)) (doc v) (visibleRanges v)) = Inr ds)"
  unfolding checkbox_ranges_Inr[symmetric]
  by (auto simp: checkbox_build_def finish_def split: sum.splits)

lemma in_ranges_decos:
  "x \<in> set (ranges_decos g d rs) \<longleftrightarrow>
     (\<exists>f t l. (f, t) \<in> set rs \<and> f \<le> t \<and> l \<in> set (doc_lines d) \<and> f \<le> line_to l \<and> line_from l \<le> t \<and>
              x \<in> set (g l))"
  by (auto simp: ranges_decos_def lines_in_def split: if_splits)

subsection \<open>The heading scan: the second call of \<open>add\<close> is always rejected\<close>

lemma heading_line_rejected:
  assumes "add_all b (heading_line act l) = Inr b'"
  shows "heading_line act l = []"
proof (rule ccontr)
  assume ne: "heading_line act l \<noteq> []"
  then obtain m where m: "str_match (line_text l) heading_rx = Some m" and a: "line_number l \<noteq> act"
    by (cases "str_match (line_text l) heading_rx") (auto simp: heading_line_def split: if_splits)
  let ?x = "(line_from l, line_from l + (length (m ! 1) + 1), Replace HiddenMarkerWidget)"
  have hl: "heading_line act l = [?x, (line_from l, line_from l, LineClass (''md-h'' @ decimal (length (m ! 1))))]"
    using m a by (simp add: heading_line_def)
  have "add_all b (heading_line act l) = Inl OrderError"
  proof (cases "add b (line_from l) (line_from l + (length (m ! 1) + 1)) (Replace HiddenMarkerWidget)")
    case (Inl e)
    then show ?thesis using add_error[OF Inl] by (simp add: hl)
  next
    case (Inr b1)
    from add_Inr[OF Inr] have "add b1 (line_from l) (line_from l) (LineClass (''md-h'' @ decimal (length (m ! 1)))) = Inl OrderError"
      by (cases b) (simp_all add: add_def)
    with Inr show ?thesis by (simp add: hl)
  qed
  with assms show False by simp
qed

lemma add_all_concat_rejected:
  assumes "\<And>b b' x. x \<in> set xss \<Longrightarrow> add_all b x = Inr b' \<Longrightarrow> x = []"
    and "add_all b (concat xss) = Inr b'"
  shows "concat xss = []"
  using assms
proof (induction xss arbitrary: b)
  case Nil then show ?case by simp
next
  case (Cons x xss)
  from Cons.prems(2) obtain b1 where b1: "add_all b x = Inr b1" "add_all b1 (concat xss) = Inr b'"
    by (auto simp: add_all_append split: sum.splits)
  from Cons.prems(1)[OF _ b1(1)] have "x = []" by simp
  moreover from Cons.IH[OF _ b1(2)] Cons.prems(1) have "concat xss = []" by simp
  ultimately show ?case by simp
qed

lemma heading_decos_rejected:
  assumes "add_all b (ranges_decos (heading_line act) d rs) = Inr b'"
  shows "ranges_decos (heading_line act) d rs = []"
  using assms unfolding ranges_decos_def
proof (rule add_all_concat_rejected[rotated])
  fix b b' x
  assume "x \<in> set (map (\<lambda>(f, t). concat (map (heading_line act) (lines_in d f t))) rs)"
    and x: "add_all b x = Inr b'"
  then obtain f t where "x = concat (map (heading_line act) (lines_in d f t))" by auto
  with x show "x = []"
    using add_all_concat_rejected[of "map (heading_line act) (lines_in d f t)" b b'] heading_line_rejected
    by auto
qed

lemma heading_build_empty: "heading_build v = Inr ds \<Longrightarrow> ds = []"
  using heading_decos_rejected add_all_Inr by (fastforce simp: heading_build_Inr)

lemma heading_update_empty:
  "decorations p = [] \<Longrightarrow> decorations (fst (heading_update p u)) = []"
  using heading_build_empty[of "update_view u"]
  by (auto simp: heading_update_def split: sum.splits)

lemma heading_run_empty: "decorations p = [] \<Longrightarrow> decorations (heading_run p us) = []"
  by (induction us arbitrary: p) (auto dest: heading_update_empty)

lemma heading_constructor_empty: "heading_constructor v = Inr p \<Longrightarrow> decorations p = []"
  using heading_build_empty[of v] by (auto simp: heading_constructor_def split: sum.splits)

subsection \<open>The checkbox scan\<close>

lemma checkbox_line_within:
  assumes "x \<in> set (checkbox_line act l)" "l \<in> set (doc_lines d)"
  shows "line_number l \<noteq> act \<and> line_from l \<le> fst x \<and> fst x \<le> fst (snd x) \<and> fst (snd x) \<le> line_to l"
proof (cases "str_match (line_text l) checkbox_rx")
  case None
  with assms(1) show ?thesis by (simp add: checkbox_line_def split: if_splits)
next
  case (Some m)
  from assms(1) have a: "line_number l \<noteq> act"
    by (auto simp: checkbox_line_def split: if_splits)
  from checkbox_match_index[OF Some] doc_lines_len[OF assms(2)] assms(1) a Some show ?thesis
    by (auto simp: checkbox_line_def split: if_splits)
qed

lemma checkbox_line_on:
  "l \<in> set (doc_lines d) \<Longrightarrow> x \<in> set (checkbox_line act l) \<Longrightarrow>
     line_from l \<le> fst x \<and> fst x \<le> line_to l"
  using checkbox_line_within[of x act l d] by simp

lemma checkbox_line_match:
  assumes "line_number l \<noteq> act" "str_match (line_text l) checkbox_rx = Some m"
  shows "\<exists>i c. indexOf (line_text l) (of_char CHR ''['') = int i \<and>
            (\<forall>j<i. line_text l ! j \<noteq> of_char CHR ''['') \<and>
            i + 3 \<le> length (line_text l) \<and>
            take 3 (drop i (line_text l)) = [of_char CHR ''['', c, of_char CHR '']''] \<and>
            (c = of_char CHR '' '' \<or> c = of_char CHR ''x'' \<or> c = of_char CHR ''X'') \<and>
            m = [take (i + 3) (line_text l), [c]] \<and>
            checkbox_line act l =
              [(line_from l + i, line_from l + i + 3,
                Replace (CheckboxWidget (c = of_char CHR ''x'' \<or> c = of_char CHR ''X'')
                  (line_from l + i) (line_from l + i + 3)))]"
proof -
  from checkbox_match_index[OF assms(2)] obtain i c where
    i: "indexOf (line_text l) (of_char CHR ''['') = int i" "i + 3 \<le> length (line_text l)"
       "take 3 (drop i (line_text l)) = [of_char CHR ''['', c, of_char CHR '']'']"
       "c = of_char CHR '' '' \<or> c = of_char CHR ''x'' \<or> c = of_char CHR ''X''"
       "m = [take (i + 3) (line_text l), [c]]" "\<forall>j<i. line_text l ! j \<noteq> of_char CHR ''[''"
    by blast
  have "checkbox_line act l =
              [(line_from l + i, line_from l + i + 3,
                Replace (CheckboxWidget (c = of_char CHR ''x'' \<or> c = of_char CHR ''X'')
                  (line_from l + i) (line_from l + i + 3)))]"
    using assms i(1,5) toLowerCase_token[OF i(4)] by (simp add: checkbox_line_def)
  with i show ?thesis by blast
qed

lemma on_line_ranges_decos:
  assumes within: "\<And>l x. l \<in> set (doc_lines d) \<Longrightarrow> x \<in> set (g l) \<Longrightarrow>
              line_from l \<le> fst x \<and> fst x \<le> line_to l"
    and vis: "(f, t) \<in> set rs" "f \<le> t" "l \<in> set (doc_lines d)" "f \<le> line_to l" "line_from l \<le> t"
  shows "on_line l (ranges_decos g d rs) = set (g l)"
proof (intro set_eqI iffI)
  fix x assume "x \<in> on_line l (ranges_decos g d rs)"
  then obtain l' where l': "l' \<in> set (doc_lines d)" "x \<in> set (g l')"
    and x: "line_from l \<le> fst x" "fst x \<le> line_to l"
    by (auto simp: on_line_def in_ranges_decos)
  from within[OF l'] x doc_lines_disjoint[OF l'(1) vis(3)] have "l' = l" by auto
  with l' show "x \<in> set (g l)" by simp
next
  fix x assume "x \<in> set (g l)"
  with within[OF vis(3) this] vis show "x \<in> on_line l (ranges_decos g d rs)"
    by (auto simp: on_line_def in_ranges_decos)
qed

lemma off_line_ranges_decos:
  assumes within: "\<And>l x. l \<in> set (doc_lines d) \<Longrightarrow> x \<in> set (g l) \<Longrightarrow>
              line_number l \<noteq> line_number L \<and> line_from l \<le> fst x \<and> fst x \<le> fst (snd x) \<and> fst (snd x) \<le> line_to l"
    and L: "L \<in> set (doc_lines d)" and x: "x \<in> set (ranges_decos g d rs)"
  shows "fst (snd x) < line_from L \<or> line_to L < fst x"
proof -
  from x obtain l where l: "l \<in> set (doc_lines d)" "x \<in> set (g l)"
    by (auto simp: in_ranges_decos)
  from within[OF l] have "l \<noteq> L" by auto
  from doc_lines_disjoint[OF l(1) L this] within[OF l] show ?thesis by auto
qed

lemma take_drop_take: "i + k \<le> n \<Longrightarrow> take k (drop i (take n xs)) = take k (drop i xs)"
  by (simp add: drop_take min_def)

lemma checkbox_build_sound:
  assumes "checkbox_build v = Inr ds"
  shows "\<exists>L. lineAt (doc v) (sel_head v) = Inr L \<and> ranges_ok (doc v) (visibleRanges v) \<and>
             ds = ranges_decos (checkbox_line (line_number L)) (doc v) (visibleRanges v)"
  using assms add_all_Inr by (fastforce simp: checkbox_build_Inr)

lemma in_checkbox_build:
  assumes "checkbox_build v = Inr ds" "x \<in> set ds"
  shows "\<exists>L l. lineAt (doc v) (sel_head v) = Inr L \<and> l \<in> set (doc_lines (doc v)) \<and>
               x \<in> set (checkbox_line (line_number L) l)"
  using checkbox_build_sound[OF assms(1)] assms(2) by (auto simp: in_ranges_decos)

lemma sorted_wrt_concat:
  "sorted_wrt P (concat xss) \<longleftrightarrow>
     (\<forall>xs\<in>set xss. sorted_wrt P xs) \<and>
     sorted_wrt (\<lambda>xs ys. \<forall>x\<in>set xs. \<forall>y\<in>set ys. P x y) xss"
  by (induction xss) (auto simp: sorted_wrt_append)

lemma checkbox_line_short: "length (checkbox_line act l) \<le> 1"
  by (simp add: checkbox_line_def split: option.splits)

lemma checkbox_line_replace: "x \<in> set (checkbox_line act l) \<Longrightarrow> \<exists>w. snd (snd x) = Replace w"
  by (auto simp: checkbox_line_def split: option.splits if_splits)

abbreviation from_le :: "range \<Rightarrow> range \<Rightarrow> bool" where
  "from_le x y \<equiv> fst x \<le> fst y"

lemma checkbox_line_sorted: "sorted_wrt from_le (checkbox_line act l)"
  using checkbox_line_short[of act l] by (cases "checkbox_line act l") auto

lemma checkbox_lines_sorted:
  "sorted_wrt from_le (concat (map (checkbox_line act) (lines_in d pos to)))"
proof -
  have "sorted_wrt (\<lambda>a b. \<forall>x\<in>set (checkbox_line act a). \<forall>y\<in>set (checkbox_line act b). from_le x y)
          (lines_in d pos to)"
  proof (rule sorted_wrt_mono_rel[OF _ lines_in_sorted])
    fix a b assume a: "a \<in> set (lines_in d pos to)" and b: "b \<in> set (lines_in d pos to)"
      and lt: "line_to a < line_from b"
    show "\<forall>x\<in>set (checkbox_line act a). \<forall>y\<in>set (checkbox_line act b). from_le x y"
      using checkbox_line_on[of a d _ act] checkbox_line_on[of b d _ act] a b lt
      by (fastforce simp: lines_in_mem)
  qed
  then show ?thesis
    by (simp add: sorted_wrt_concat sorted_wrt_map checkbox_line_sorted)
qed

lemma checkbox_decos_sorted:
  assumes "ranges_ascending rs"
  shows "sorted_wrt from_le (ranges_decos (checkbox_line act) d rs)"
proof -
  define X where "X = (\<lambda>(f :: nat, t :: nat). concat (map (checkbox_line act) (lines_in d f t)))"
  have "sorted_wrt (\<lambda>r r'. \<forall>x\<in>set (X r). \<forall>y\<in>set (X r'). from_le x y) rs"
  proof (rule sorted_wrt_mono_rel[OF _ assms[unfolded ranges_ascending_def]])
    fix r r' :: "nat \<times> nat" assume "(case r of (f1, t1) \<Rightarrow> \<lambda>(f2, t2). t1 \<le> f2) r'"
    then obtain f1 t1 f2 t2 where r: "r = (f1, t1)" "r' = (f2, t2)" "t1 \<le> f2"
      by (cases r; cases r') auto
    show "\<forall>x\<in>set (X r). \<forall>y\<in>set (X r'). from_le x y"
    proof (intro ballI)
      fix x y assume "x \<in> set (X r)" "y \<in> set (X r')"
      then obtain a b where a: "a \<in> set (doc_lines d)" "line_from a \<le> t1" "x \<in> set (checkbox_line act a)"
        and b: "b \<in> set (doc_lines d)" "f2 \<le> line_to b" "y \<in> set (checkbox_line act b)"
        unfolding r X_def by (auto simp: lines_in_mem)
      show "from_le x y"
      proof (cases "a = b")
        case True
        with a(3) b(3) checkbox_line_short[of act a] have "x = y"
          by (cases "checkbox_line act a") auto
        then show ?thesis by simp
      next
        case False
        from doc_lines_disjoint[OF a(1) b(1) False] a(2) b(2) r(3)
        have "line_to a < line_from b" by auto
        with checkbox_line_on[OF a(1) a(3)] checkbox_line_on[OF b(1) b(3)] show ?thesis by simp
      qed
    qed
  qed
  moreover have "\<forall>r\<in>set rs. sorted_wrt from_le (X r)"
    by (auto simp: X_def checkbox_lines_sorted)
  ultimately have "sorted_wrt from_le (concat (map X rs))"
    by (simp add: sorted_wrt_concat sorted_wrt_map)
  then show ?thesis by (simp add: ranges_decos_def X_def)
qed

lemma add_all_sorted:
  assumes "sorted_wrt from_le (b @ xs)" and "\<forall>x\<in>set (b @ xs). \<exists>w. snd (snd x) = Replace w"
  shows "add_all b xs = Inr (b @ xs)"
  using assms
proof (induction xs arbitrary: b)
  case Nil then show ?case by simp
next
  case (Cons x xs)
  obtain f t v where x: "x = (f, t, v)" by (cases x) auto
  have a: "add b f t v = Inr (b @ [x])"
  proof (cases b)
    case Nil then show ?thesis by (simp add: add_def x)
  next
    case (Cons y ys)
    obtain lf lt lv where l: "last b = (lf, lt, lv)" by (cases "last b") auto
    have lb: "last b \<in> set b" using Cons by simp
    with Cons.prems(1) have "lf \<le> f" using l x by (fastforce simp: sorted_wrt_append)
    moreover have "\<exists>w. snd (snd (last b)) = Replace w" "\<exists>w. snd (snd x) = Replace w"
      using Cons.prems(2) lb by auto
    then obtain w w' where "lv = Replace w" "v = Replace w'" using l x by auto
    ultimately show ?thesis using Cons l by (simp add: add_def x)
  qed
  from Cons.IH[of "b @ [x]"] Cons.prems have "add_all (b @ [x]) xs = Inr (b @ x # xs)" by simp
  with a show ?case by (simp add: x)
qed

lemma checkbox_build_ok:
  assumes "lineAt (doc v) (sel_head v) = Inr L" and "ranges_ok (doc v) (visibleRanges v)"
    and "ranges_ascending (visibleRanges v)"
  shows "checkbox_build v = Inr (ranges_decos (checkbox_line (line_number L)) (doc v) (visibleRanges v))"
proof -
  have "add_all [] (ranges_decos (checkbox_line (line_number L)) (doc v) (visibleRanges v))
      = Inr ([] @ ranges_decos (checkbox_line (line_number L)) (doc v) (visibleRanges v))"
    by (rule add_all_sorted)
       (use checkbox_decos_sorted[OF assms(3)] checkbox_line_replace in \<open>auto simp: in_ranges_decos\<close>)
  with assms(1,2) show ?thesis by (simp add: checkbox_build_Inr)
qed

section \<open>Evaluation on concrete inputs\<close>

lemmas rx_eval = str_match_def heading_rx_def heading_spec_rx_def checkbox_rx_def
  is_chr_def is_space_def is_dot_def

lemmas doc_eval = lineAt_def doc_lines_def js_def

lemmas build_eval = heading_build_def checkbox_build_def heading_scan.simps checkbox_scan.simps
  finish_def add_def decimal.simps digit_char_def indexOf_def toLowerCase_def

section \<open>The active line\<close>

text \<open>
  C1. Let \<open>L\<close> be the line that holds the head of the selection. Then \<open>L\<close> does hold
  it, and every decoration that the heading decorator or the checkbox decorator builds
  lies entirely before \<open>L\<close> or entirely after it, whatever the text of \<open>L\<close>, the document
  and the visible ranges are: the active line receives no decoration.
\<close>

theorem active_line_undecorated:
  assumes "lineAt (doc v) (sel_head v) = Inr L"
  shows "line_from L \<le> sel_head v \<and> sel_head v \<le> line_to L \<and>
         (\<forall>ds. heading_build v = Inr ds \<longrightarrow>
            (\<forall>(f, t, dec)\<in>set ds. t < line_from L \<or> line_to L < f)) \<and>
         (\<forall>ds. checkbox_build v = Inr ds \<longrightarrow>
            (\<forall>(f, t, dec)\<in>set ds. t < line_from L \<or> line_to L < f))"
proof -
  note L = lineAt_mem[OF assms]
  have h: "\<forall>ds. heading_build v = Inr ds \<longrightarrow>
            (\<forall>(f, t, dec)\<in>set ds. t < line_from L \<or> line_to L < f)"
    using heading_build_empty by fastforce
  have "\<forall>(f, t, dec)\<in>set (ranges_decos (checkbox_line (line_number L)) (doc v) (visibleRanges v)).
             t < line_from L \<or> line_to L < f"
    using off_line_ranges_decos[OF _ L, of "checkbox_line (line_number L)"] checkbox_line_within
    by fastforce
  then have c: "\<forall>ds. checkbox_build v = Inr ds \<longrightarrow>
            (\<forall>(f, t, dec)\<in>set ds. t < line_from L \<or> line_to L < f)"
    using checkbox_build_sound[of v] assms by auto
  from lineAt_from[OF assms] lineAt_le[OF assms] h c show ?thesis by blast
qed

theorem active_line_undecorated_witness:
  "lineAt (js ''## Hola\<newline>- [ ] a'') 3 = Inr \<lparr>line_from = 0, line_to = 7, line_number = 1, line_text = js ''## Hola''\<rparr> \<and>
   heading_build \<lparr>doc = js ''## Hola\<newline>- [ ] a'', sel_head = 3, visibleRanges = [(0, 15)]\<rparr> = Inr [] \<and>
   checkbox_build \<lparr>doc = js ''## Hola\<newline>- [ ] a'', sel_head = 3, visibleRanges = [(0, 15)]\<rparr>
     = Inr [(10, 13, Replace (CheckboxWidget False 10 13))] \<and>
   lineAt (js ''## Hola\<newline>- [ ] a'') 15 = Inr \<lparr>line_from = 8, line_to = 15, line_number = 2, line_text = js ''- [ ] a''\<rparr> \<and>
   checkbox_build \<lparr>doc = js ''## Hola\<newline>- [ ] a'', sel_head = 15, visibleRanges = [(0, 15)]\<rparr> = Inr []"
  using active_line_undecorated [of "\<lparr>doc = js ''## Hola\<newline>- [ ] a'', sel_head = 3, visibleRanges = [(0, 15)]\<rparr>"
      "\<lparr>line_from = 0, line_to = 7, line_number = 1, line_text = js ''## Hola''\<rparr>"]
    active_line_undecorated [of "\<lparr>doc = js ''## Hola\<newline>- [ ] a'', sel_head = 15, visibleRanges = [(0, 15)]\<rparr>"
      "\<lparr>line_from = 8, line_to = 15, line_number = 2, line_text = js ''- [ ] a''\<rparr>"]
  by (simp add: rx_eval doc_eval build_eval)

section \<open>Heading rendering\<close>

text \<open>
  C2 does not hold of the code. For a line that is visible, not active and matches
  \<^verbatim>\<open>^(#{1,6})\s+.*$\<close>, the loop body adds the replace decoration at \<open>line.from\<close> and
  then the line decoration at the same \<open>from\<close>, lines 130 to 141; the line decoration
  sorts before the replace decoration, the builder rejects it, and the build throws. So
  the build of a view with such a line ends with an error, and a build that returns
  returns no decoration at all: no marker is ever hidden and no class \<open>md-h\<close> is ever
  attached.
\<close>

theorem heading_build_throws_on_heading:
  assumes "lineAt (doc v) (sel_head v) = Inr L"
    and "(f, t) \<in> set (visibleRanges v)" and "f \<le> t"
    and "l \<in> set (doc_lines (doc v))" and "f \<le> line_to l" and "line_from l \<le> t"
    and "line_number l \<noteq> line_number L"
    and "str_match (line_text l) heading_spec_rx \<noteq> None"
  shows "(\<exists>e. heading_build v = Inl e) \<and> (\<forall>v' ds. heading_build v' = Inr ds \<longrightarrow> ds = [])"
proof -
  from assms(8) obtain m where m: "str_match (line_text l) heading_rx = Some m"
    using heading_spec_iff[of "line_text l"] by auto
  have "\<exists>e. heading_build v = Inl e"
  proof (cases "heading_build v")
    case (Inl e) then show ?thesis by blast
  next
    case (Inr ds)
    then have "ranges_decos (heading_line (line_number L)) (doc v) (visibleRanges v) = []"
      using heading_decos_rejected assms(1) by (auto simp: heading_build_Inr)
    moreover have "(line_from l, line_from l, LineClass (''md-h'' @ decimal (length (m ! 1))))
        \<in> set (heading_line (line_number L) l)"
      using assms(7) m by (simp add: heading_line_def)
    then have "(line_from l, line_from l, LineClass (''md-h'' @ decimal (length (m ! 1))))
        \<in> set (ranges_decos (heading_line (line_number L)) (doc v) (visibleRanges v))"
      unfolding in_ranges_decos using assms(2-6) by blast
    ultimately show ?thesis by simp
  qed
  then show ?thesis using heading_build_empty by blast
qed

theorem heading_build_throws_on_heading_witness:
  "lineAt (js ''## Hola\<newline>'') 8 = Inr \<lparr>line_from = 8, line_to = 8, line_number = 2, line_text = []\<rparr> \<and>
   str_match (js ''## Hola'') heading_spec_rx = Some [js ''## Hola'', js ''##''] \<and>
   str_match (js ''## Hola'') heading_rx = Some [js ''## Hola'', js ''##'', js ''Hola''] \<and>
   add [] 0 3 (Replace HiddenMarkerWidget) = Inr [(0, 3, Replace HiddenMarkerWidget)] \<and>
   add [(0, 3, Replace HiddenMarkerWidget)] 0 0 (LineClass ''md-h2'') = Inl OrderError \<and>
   heading_build \<lparr>doc = js ''## Hola\<newline>'', sel_head = 8, visibleRanges = [(0, 8)]\<rparr> = Inl OrderError"
  using heading_build_throws_on_heading [of
      "\<lparr>doc = js ''## Hola\<newline>'', sel_head = 8, visibleRanges = [(0, 8)]\<rparr>"
      "\<lparr>line_from = 8, line_to = 8, line_number = 2, line_text = []\<rparr>" 0 8
      "\<lparr>line_from = 0, line_to = 7, line_number = 1, line_text = js ''## Hola''\<rparr>"]
  by (simp add: rx_eval doc_eval build_eval)

section \<open>Checkbox rendering\<close>

text \<open>
  C3. Let no visible range reach beyond the document, and let \<open>l\<close> be a line that meets
  a visible range and is not the active line. With the visible ranges in ascending
  order the build succeeds. Whenever the build succeeds: if the text of \<open>l\<close> matches
  \<^verbatim>\<open>^\s*-\s*\[( |x|X)\]\<close>, the decorations on \<open>l\<close> are exactly one, a checkbox that
  replaces the three characters of the bracket token, which end the match, and that is
  checked exactly when the character between the brackets is \<open>x\<close> or \<open>X\<close>; if the text
  does not match, there is no decoration on \<open>l\<close>. A line whose bracket after the dash
  does not hold exactly a space, \<open>x\<close> or \<open>X\<close> does not match.
\<close>

theorem checkbox_line_decorations:
  assumes "lineAt (doc v) (sel_head v) = Inr L"
    and "ranges_ok (doc v) (visibleRanges v)"
    and "(f, t) \<in> set (visibleRanges v)" and "f \<le> t"
    and "l \<in> set (doc_lines (doc v))" and "f \<le> line_to l" and "line_from l \<le> t"
    and "line_number l \<noteq> line_number L"
  shows
    "(ranges_ascending (visibleRanges v) \<longrightarrow> (\<exists>ds. checkbox_build v = Inr ds)) \<and>
     (\<forall>ds. checkbox_build v = Inr ds \<longrightarrow>
       (case str_match (line_text l) checkbox_rx of
          None \<Rightarrow> on_line l ds = {}
        | Some m \<Rightarrow>
            (\<exists>i c. indexOf (line_text l) (of_char CHR ''['') = int i \<and>
               take 3 (drop i (line_text l)) = [of_char CHR ''['', c, of_char CHR '']''] \<and>
               m ! 0 = take (i + 3) (line_text l) \<and> m ! 1 = [c] \<and>
               on_line l ds =
                 {(line_from l + i, line_from l + i + 3,
                   Replace (CheckboxWidget (c = of_char CHR ''x'' \<or> c = of_char CHR ''X'')
                     (line_from l + i) (line_from l + i + 3)))}))) \<and>
     (\<forall>ws1 ws2 rest.
        line_text l = ws1 @ of_char CHR ''-'' # ws2 @ of_char CHR ''['' # rest \<and>
        list_all is_space ws1 \<and> list_all is_space ws2 \<and>
        \<not> (\<exists>c r. rest = c # of_char CHR '']'' # r \<and>
               (c = of_char CHR '' '' \<or> c = of_char CHR ''x'' \<or> c = of_char CHR ''X''))
        \<longrightarrow> str_match (line_text l) checkbox_rx = None)"
proof -
  let ?g = "checkbox_line (line_number L)"
  let ?ds = "ranges_decos ?g (doc v) (visibleRanges v)"
  have ok: "ranges_ascending (visibleRanges v) \<longrightarrow> (\<exists>ds. checkbox_build v = Inr ds)"
    using checkbox_build_ok[OF assms(1,2)] by blast
  have b: "ds = ?ds" if "checkbox_build v = Inr ds" for ds
    using checkbox_build_sound[OF that] assms(1) by auto
  have o: "on_line l ?ds = set (?g l)"
    by (rule on_line_ranges_decos[OF checkbox_line_on assms(3-7)])
  have 1: "(case str_match (line_text l) checkbox_rx of
        None \<Rightarrow> on_line l ?ds = {}
      | Some m \<Rightarrow>
          (\<exists>i c. indexOf (line_text l) (of_char CHR ''['') = int i \<and>
             take 3 (drop i (line_text l)) = [of_char CHR ''['', c, of_char CHR '']''] \<and>
             m ! 0 = take (i + 3) (line_text l) \<and> m ! 1 = [c] \<and>
             on_line l ?ds =
               {(line_from l + i, line_from l + i + 3,
                 Replace (CheckboxWidget (c = of_char CHR ''x'' \<or> c = of_char CHR ''X'')
                   (line_from l + i) (line_from l + i + 3)))}))"
  proof (cases "str_match (line_text l) checkbox_rx")
    case None
    with assms(8) o show ?thesis by (simp add: checkbox_line_def)
  next
    case (Some m)
    from checkbox_line_match[OF assms(8) Some] obtain i c where
      "indexOf (line_text l) (of_char CHR ''['') = int i"
      "take 3 (drop i (line_text l)) = [of_char CHR ''['', c, of_char CHR '']'']"
      "m = [take (i + 3) (line_text l), [c]]"
      "?g l = [(line_from l + i, line_from l + i + 3,
                Replace (CheckboxWidget (c = of_char CHR ''x'' \<or> c = of_char CHR ''X'')
                  (line_from l + i) (line_from l + i + 3)))]"
      by blast
    with Some o show ?thesis
      by (simp only: option.case) (intro exI[of _ i] exI[of _ c], simp)
  qed
  from ok b 1 checkbox_malformed_None show ?thesis by blast
qed

theorem checkbox_line_decorations_witness:
  "checkbox_build \<lparr>doc = js ''-[X]Go\<newline>\<newline>- [ x]\<newline>  - [y]'', sel_head = 7, visibleRanges = [(0, 21)]\<rparr>
     = Inr [(1, 4, Replace (CheckboxWidget True 1 4))] \<and>
   str_match (js ''-[X]Go'') checkbox_rx = Some [js ''-[X]'', js ''X''] \<and>
   str_match (js ''- [ x]'') checkbox_rx = None \<and>
   str_match (js ''  - [y]'') checkbox_rx = None \<and>
   on_line \<lparr>line_from = 0, line_to = 6, line_number = 1, line_text = js ''-[X]Go''\<rparr>
       [(1, 4, Replace (CheckboxWidget True 1 4))] = {(1, 4, Replace (CheckboxWidget True 1 4))} \<and>
   on_line \<lparr>line_from = 8, line_to = 14, line_number = 3, line_text = js ''- [ x]''\<rparr>
       [(1, 4, Replace (CheckboxWidget True 1 4))] = {} \<and>
   on_line \<lparr>line_from = 15, line_to = 22, line_number = 4, line_text = js ''  - [y]''\<rparr>
       [(1, 4, Replace (CheckboxWidget True 1 4))] = {}"
  using checkbox_line_decorations [of
      "\<lparr>doc = js ''-[X]Go\<newline>\<newline>- [ x]\<newline>  - [y]'', sel_head = 7, visibleRanges = [(0, 21)]\<rparr>"
      "\<lparr>line_from = 7, line_to = 7, line_number = 2, line_text = []\<rparr>" 0 21
      "\<lparr>line_from = 0, line_to = 6, line_number = 1, line_text = js ''-[X]Go''\<rparr>"]
    checkbox_line_decorations [of
      "\<lparr>doc = js ''-[X]Go\<newline>\<newline>- [ x]\<newline>  - [y]'', sel_head = 7, visibleRanges = [(0, 21)]\<rparr>"
      "\<lparr>line_from = 7, line_to = 7, line_number = 2, line_text = []\<rparr>" 0 21
      "\<lparr>line_from = 8, line_to = 14, line_number = 3, line_text = js ''- [ x]''\<rparr>"]
    checkbox_line_decorations [of
      "\<lparr>doc = js ''-[X]Go\<newline>\<newline>- [ x]\<newline>  - [y]'', sel_head = 7, visibleRanges = [(0, 21)]\<rparr>"
      "\<lparr>line_from = 7, line_to = 7, line_number = 2, line_text = []\<rparr>" 0 21
      "\<lparr>line_from = 15, line_to = 22, line_number = 4, line_text = js ''  - [y]''\<rparr>"]
  by (simp add: rx_eval doc_eval build_eval ranges_ok_def ranges_ascending_def on_line_def)

text \<open>
  C9. When a text matches the checkbox pattern, \<open>indexOf('[')\<close> is not \<open>-1\<close>: it is the
  index \<open>i\<close> of the first \<open>[\<close> of the text, the three characters from \<open>i\<close> on are the
  bracket token with the captured character between the brackets, and the match ends
  with them.
\<close>

theorem bracket_index_is_token:
  assumes "str_match s checkbox_rx = Some m"
  shows "indexOf s (of_char CHR ''['') \<noteq> -1 \<and>
         (\<exists>i c. indexOf s (of_char CHR ''['') = int i \<and> (\<forall>j<i. s ! j \<noteq> of_char CHR ''['') \<and>
                i + 3 \<le> length s \<and> m ! 0 = take (i + 3) s \<and> m ! 1 = [c] \<and>
                take 3 (drop i s) = [of_char CHR ''['', c, of_char CHR '']''] \<and>
                (c = of_char CHR '' '' \<or> c = of_char CHR ''x'' \<or> c = of_char CHR ''X''))"
  using checkbox_match_index[OF assms] by auto

theorem bracket_index_is_token_witness:
  "str_match (js ''  -  [X] a [ ]'') checkbox_rx = Some [js ''  -  [X]'', js ''X''] \<and>
   indexOf (js ''  -  [X] a [ ]'') (of_char CHR ''['') = 5 \<and>
   take 3 (drop 5 (js ''  -  [X] a [ ]'')) = js ''[X]''"
  using bracket_index_is_token [of "js ''  -  [X] a [ ]''" "[js ''  -  [X]'', js ''X'']"]
  by (simp add: rx_eval js_def indexOf_def)

section \<open>Toggling a checkbox\<close>

text \<open>
  C4. Every widget \<open>w\<close> of the decoration set that the checkbox decorator builds for a
  view is a checkbox on a range of three characters within the document, which read
  \<open>[ ]\<close> when the widget is not checked and \<open>[x]\<close> or \<open>[X]\<close> when it is. Toggling
  \<open>w\<close> succeeds, and gives a document of the same length that agrees with the old one
  before and after these three characters, and in which they read \<open>[x]\<close> when the widget
  was not checked and \<open>[ ]\<close> when it was.
\<close>

theorem toggle_rewrites_token:
  assumes "checkbox_build v = Inr ds" and "(f, t, Replace w) \<in> set ds"
  shows "\<exists>c. w = CheckboxWidget c f t \<and> t = f + 3 \<and> t \<le> length (doc v) \<and>
           (if c then take 3 (drop f (doc v)) = js ''[x]'' \<or> take 3 (drop f (doc v)) = js ''[X]''
            else take 3 (drop f (doc v)) = js ''[ ]'') \<and>
           (\<exists>d'. toggle w (doc v) = Inr d' \<and> length d' = length (doc v) \<and>
                 take f d' = take f (doc v) \<and> drop t d' = drop t (doc v) \<and>
                 take 3 (drop f d') = (if c then js ''[ ]'' else js ''[x]''))"
proof -
  from in_checkbox_build[OF assms] obtain L :: line and l where
    l: "l \<in> set (doc_lines (doc v))" and x: "(f, t, Replace w) \<in> set (checkbox_line (line_number L) l)"
    by blast
  from x obtain m where m: "str_match (line_text l) checkbox_rx = Some m" and a: "line_number l \<noteq> line_number L"
    by (cases "str_match (line_text l) checkbox_rx") (auto simp: checkbox_line_def split: if_splits)
  from checkbox_line_match[OF a m] obtain i c where
    i: "i + 3 \<le> length (line_text l)"
       "take 3 (drop i (line_text l)) = [of_char CHR ''['', c, of_char CHR '']'']"
       "c = of_char CHR '' '' \<or> c = of_char CHR ''x'' \<or> c = of_char CHR ''X''"
       "checkbox_line (line_number L) l =
              [(line_from l + i, line_from l + i + 3,
                Replace (CheckboxWidget (c = of_char CHR ''x'' \<or> c = of_char CHR ''X'')
                  (line_from l + i) (line_from l + i + 3)))]"
    by blast
  let ?c = "c = of_char CHR ''x'' \<or> c = (of_char CHR ''X'' :: cu)"
  from x i(4) have w: "f = line_from l + i" "t = f + 3" "w = CheckboxWidget ?c f t" by auto
  have len: "t \<le> length (doc v)"
    using doc_lines_to[OF l] doc_lines_len[OF l] i(1) w by simp
  have "take 3 (drop i (line_text l)) = take 3 (drop i (drop (line_from l) (doc v)))"
    by (subst doc_lines_text[OF l]) (rule take_drop_take[OF i(1)])
  with i(2) w have tok: "take 3 (drop f (doc v)) = [of_char CHR ''['', c, of_char CHR '']'']"
    by (simp add: add.commute)
  have tokc: "if ?c then take 3 (drop f (doc v)) = js ''[x]'' \<or> take 3 (drop f (doc v)) = js ''[X]''
            else take 3 (drop f (doc v)) = js ''[ ]''"
    using i(3) tok by (auto simp: js_def)
  let ?next = "if ?c then js ''[ ]'' else js ''[x]''"
  let ?d' = "take f (doc v) @ ?next @ drop t (doc v)"
  have tg: "toggle w (doc v) = Inr ?d'"
    using w len by (simp add: toggle_def dispatch_changes_def)
  have ln: "length ?next = 3" by (simp add: js_def)
  have fl: "f \<le> length (doc v)" using len w by simp
  have 1: "length ?d' = length (doc v)" using len w ln fl by (simp del: length_0_conv) 
  have 2: "take f ?d' = take f (doc v)" using fl by simp
  have 3: "drop t ?d' = drop t (doc v)" using fl ln w(2) by (simp add: min_def)
  have 4: "take 3 (drop f ?d') = ?next" using fl ln by (simp add: min_def)
  from w len tokc tg 1 2 3 4 show ?thesis by (intro exI[of _ ?c]) simp
qed

theorem toggle_rewrites_token_witness:
  "checkbox_build \<lparr>doc = js ''x\<newline>- [ ] a\<newline>-[X]Go'', sel_head = 0, visibleRanges = [(0, 16)]\<rparr>
     = Inr [(4, 7, Replace (CheckboxWidget False 4 7)), (11, 14, Replace (CheckboxWidget True 11 14))] \<and>
   toggle (CheckboxWidget False 4 7) (js ''x\<newline>- [ ] a\<newline>-[X]Go'') = Inr (js ''x\<newline>- [x] a\<newline>-[X]Go'') \<and>
   toggle (CheckboxWidget True 11 14) (js ''x\<newline>- [ ] a\<newline>-[X]Go'') = Inr (js ''x\<newline>- [ ] a\<newline>-[ ]Go'')"
  using toggle_rewrites_token [of
      "\<lparr>doc = js ''x\<newline>- [ ] a\<newline>-[X]Go'', sel_head = 0, visibleRanges = [(0, 16)]\<rparr>"
      "[(4, 7, Replace (CheckboxWidget False 4 7)), (11, 14, Replace (CheckboxWidget True 11 14))]"
      4 7 "CheckboxWidget False 4 7"]
    toggle_rewrites_token [of
      "\<lparr>doc = js ''x\<newline>- [ ] a\<newline>-[X]Go'', sel_head = 0, visibleRanges = [(0, 16)]\<rparr>"
      "[(4, 7, Replace (CheckboxWidget False 4 7)), (11, 14, Replace (CheckboxWidget True 11 14))]"
      11 14 "CheckboxWidget True 11 14"]
  by (simp add: rx_eval doc_eval build_eval toggle_def dispatch_changes_def)

section \<open>Decorations as a function of the frame\<close>

text \<open>
  C5. Two views with the same document and the same visible ranges, whose selection
  heads lie on lines of the same number, get the same outcome from the heading build
  and the same from the checkbox build. No decoration outlives a document change: a
  heading plugin, from its constructor on and through any updates, holds no decoration
  (its build returns none), so after an update that reports a document change it holds
  none, and holds the result of the build when the build returns; a checkbox plugin
  then holds exactly the result of a build on the update's view, which succeeds on the
  views the editor hands out.
\<close>

theorem decorations_function_of_inputs:
  "(doc v1 = doc v2 \<and> visibleRanges v1 = visibleRanges v2 \<and>
    lineAt (doc v1) (sel_head v1) = Inr L1 \<and> lineAt (doc v2) (sel_head v2) = Inr L2 \<and>
    line_number L1 = line_number L2 \<longrightarrow>
      heading_build v1 = heading_build v2 \<and> checkbox_build v1 = checkbox_build v2) \<and>
   (heading_constructor v0 = Inr p0 \<and> docChanged u \<longrightarrow>
      decorations (fst (heading_update (heading_run p0 us) u)) = [] \<and>
      (\<forall>ds. heading_build (update_view u) = Inr ds \<longrightarrow>
         heading_update (heading_run p0 us) u = (\<lparr>decorations = ds\<rparr>, None))) \<and>
   (docChanged u \<and> sel_head (update_view u) \<le> length (doc (update_view u)) \<and>
    ranges_ok (doc (update_view u)) (visibleRanges (update_view u)) \<and>
    ranges_ascending (visibleRanges (update_view u)) \<longrightarrow>
      (\<exists>ds. checkbox_build (update_view u) = Inr ds \<and>
            checkbox_update q u = (\<lparr>decorations = ds\<rparr>, None)))"
proof -
  have 1: "doc v1 = doc v2 \<and> visibleRanges v1 = visibleRanges v2 \<and>
    lineAt (doc v1) (sel_head v1) = Inr L1 \<and> lineAt (doc v2) (sel_head v2) = Inr L2 \<and>
    line_number L1 = line_number L2 \<longrightarrow>
      heading_build v1 = heading_build v2 \<and> checkbox_build v1 = checkbox_build v2"
    by (auto simp: heading_build_def checkbox_build_def)
  have 2: "heading_constructor v0 = Inr p0 \<and> docChanged u \<longrightarrow>
      decorations (fst (heading_update (heading_run p0 us) u)) = [] \<and>
      (\<forall>ds. heading_build (update_view u) = Inr ds \<longrightarrow>
         heading_update (heading_run p0 us) u = (\<lparr>decorations = ds\<rparr>, None))"
  proof (intro impI, elim conjE)
    assume a: "heading_constructor v0 = Inr p0" "docChanged u"
    have e: "decorations (fst (heading_update (heading_run p0 us) u)) = []"
      by (rule heading_update_empty[OF heading_run_empty[OF heading_constructor_empty[OF a(1)]]])
    have "heading_update (heading_run p0 us) u = (\<lparr>decorations = ds\<rparr>, None)"
      if "heading_build (update_view u) = Inr ds" for ds
      using that a(2) by (cases "heading_run p0 us") (simp add: heading_update_def)
    with e show "decorations (fst (heading_update (heading_run p0 us) u)) = [] \<and>
      (\<forall>ds. heading_build (update_view u) = Inr ds \<longrightarrow>
         heading_update (heading_run p0 us) u = (\<lparr>decorations = ds\<rparr>, None))" by blast
  qed
  have 3: "docChanged u \<and> sel_head (update_view u) \<le> length (doc (update_view u)) \<and>
    ranges_ok (doc (update_view u)) (visibleRanges (update_view u)) \<and>
    ranges_ascending (visibleRanges (update_view u)) \<longrightarrow>
      (\<exists>ds. checkbox_build (update_view u) = Inr ds \<and>
            checkbox_update q u = (\<lparr>decorations = ds\<rparr>, None))"
  proof (intro impI, elim conjE)
    assume a: "docChanged u" "sel_head (update_view u) \<le> length (doc (update_view u))"
      "ranges_ok (doc (update_view u)) (visibleRanges (update_view u))"
      "ranges_ascending (visibleRanges (update_view u))"
    from lineAt_ok[OF a(2)] obtain L where "lineAt (doc (update_view u)) (sel_head (update_view u)) = Inr L"
      by blast
    from checkbox_build_ok[OF this a(3,4)] a(1) show
      "\<exists>ds. checkbox_build (update_view u) = Inr ds \<and> checkbox_update q u = (\<lparr>decorations = ds\<rparr>, None)"
      by (cases q) (simp add: checkbox_update_def)
  qed
  from 1 2 3 show ?thesis by blast
qed

theorem decorations_function_of_inputs_witness:
  "heading_build \<lparr>doc = js ''ab\<newline># c\<newline>- [ ]'', sel_head = 0, visibleRanges = [(0, 12)]\<rparr>
     = heading_build \<lparr>doc = js ''ab\<newline># c\<newline>- [ ]'', sel_head = 2, visibleRanges = [(0, 12)]\<rparr> \<and>
   checkbox_build \<lparr>doc = js ''ab\<newline># c\<newline>- [ ]'', sel_head = 0, visibleRanges = [(0, 12)]\<rparr>
     = checkbox_build \<lparr>doc = js ''ab\<newline># c\<newline>- [ ]'', sel_head = 2, visibleRanges = [(0, 12)]\<rparr> \<and>
   heading_constructor \<lparr>doc = js ''ab'', sel_head = 0, visibleRanges = [(0, 2)]\<rparr>
     = Inr \<lparr>decorations = []\<rparr> \<and>
   heading_update \<lparr>decorations = []\<rparr>
     \<lparr>docChanged = True, viewportChanged = False, selectionSet = False,
      update_view = \<lparr>doc = js ''ab\<newline># c\<newline>- [ ]'', sel_head = 0, visibleRanges = [(0, 12)]\<rparr>\<rparr>
     = (\<lparr>decorations = []\<rparr>, Some OrderError) \<and>
   checkbox_update \<lparr>decorations = []\<rparr>
     \<lparr>docChanged = True, viewportChanged = False, selectionSet = False,
      update_view = \<lparr>doc = js ''ab\<newline># c\<newline>- [ ]'', sel_head = 0, visibleRanges = [(0, 12)]\<rparr>\<rparr>
     = (\<lparr>decorations = [(9, 12, Replace (CheckboxWidget False 9 12))]\<rparr>, None)"
  using decorations_function_of_inputs [of
      "\<lparr>doc = js ''ab\<newline># c\<newline>- [ ]'', sel_head = 0, visibleRanges = [(0, 12)]\<rparr>"
      "\<lparr>doc = js ''ab\<newline># c\<newline>- [ ]'', sel_head = 2, visibleRanges = [(0, 12)]\<rparr>"
      "\<lparr>line_from = 0, line_to = 2, line_number = 1, line_text = js ''ab''\<rparr>"
      "\<lparr>line_from = 0, line_to = 2, line_number = 1, line_text = js ''ab''\<rparr>"
      "\<lparr>doc = js ''ab'', sel_head = 0, visibleRanges = [(0, 2)]\<rparr>"
      "\<lparr>decorations = []\<rparr>"
      "\<lparr>docChanged = True, viewportChanged = False, selectionSet = False,
        update_view = \<lparr>doc = js ''ab\<newline># c\<newline>- [ ]'', sel_head = 0, visibleRanges = [(0, 12)]\<rparr>\<rparr>"
      "[]" "\<lparr>decorations = []\<rparr>"]
  by (simp add: rx_eval doc_eval build_eval heading_constructor_def heading_update_def
        checkbox_update_def ranges_ok_def ranges_ascending_def)

section \<open>The render-pass trigger policy\<close>

text \<open>
  C6 does not hold of the code for the heading decorator. On an update that reports a
  selection change, with a heading line in view that is not the active line, the build
  that \<open>update\<close> calls throws (the defect of C2): the heading set is not rebuilt. On
  the same update the checkbox decorator replaces its set by a fresh build, and an
  update that reports no change leaves the plugin as it was.
\<close>

theorem heading_update_throws_on_heading:
  "heading_update \<lparr>decorations = []\<rparr>
     \<lparr>docChanged = False, viewportChanged = False, selectionSet = True,
      update_view = \<lparr>doc = js ''- [x] a\<newline>## Hola\<newline>'', sel_head = 16, visibleRanges = [(0, 16)]\<rparr>\<rparr>
     = (\<lparr>decorations = []\<rparr>, Some OrderError) \<and>
   checkbox_update \<lparr>decorations = []\<rparr>
     \<lparr>docChanged = False, viewportChanged = False, selectionSet = True,
      update_view = \<lparr>doc = js ''- [x] a\<newline>## Hola\<newline>'', sel_head = 16, visibleRanges = [(0, 16)]\<rparr>\<rparr>
     = (\<lparr>decorations = [(2, 5, Replace (CheckboxWidget True 2 5))]\<rparr>, None) \<and>
   heading_update \<lparr>decorations = []\<rparr>
     \<lparr>docChanged = False, viewportChanged = False, selectionSet = False,
      update_view = \<lparr>doc = js ''- [x] a\<newline>## Hola\<newline>'', sel_head = 16, visibleRanges = [(0, 16)]\<rparr>\<rparr>
     = (\<lparr>decorations = []\<rparr>, None)"
  by (simp add: rx_eval doc_eval build_eval heading_update_def checkbox_update_def)

text \<open>
  C7. Two runs of a build on the same view have the same outcome, for the heading
  decorator and for the checkbox decorator: both throw the same error, or both return
  sets with the same ranges whose decorations the library compares equal. The widgets
  of the two runs are separate instances: the checkboxes are equal by the \<open>eq\<close> of the
  source, and a heading set that is returned holds no widget.
\<close>

theorem rebuild_idempotent:
  "same_outcome (heading_build v) (heading_build v) \<and>
   same_outcome (checkbox_build v) (checkbox_build v)"
proof
  show "same_outcome (heading_build v) (heading_build v)"
    using heading_build_empty[of v] by (cases "heading_build v") auto
  show "same_outcome (checkbox_build v) (checkbox_build v)"
  proof (cases "checkbox_build v")
    case (Inl e) then show ?thesis by simp
  next
    case (Inr ds)
    have "range_eq x x" if "x \<in> set ds" for x
    proof -
      from in_checkbox_build[OF Inr that] obtain L :: line and l where
        "x \<in> set (checkbox_line (line_number L) l)" by blast
      then show ?thesis by (auto simp: checkbox_line_def split: if_splits option.splits)
    qed
    with Inr show ?thesis by (simp add: list_all2_same)
  qed
qed

section \<open>The export action\<close>

text \<open>
  C8. \<open>export\<close> changes nothing when no editor is mounted. With an editor mounted it
  sets the exported text to the document of the view, as the document holds it, whatever
  the two plugins hold as decorations, and changes nothing else.
\<close>

theorem export_unmounted_or_raw:
  "export \<lparr>view = None, exported = x\<rparr> = \<lparr>view = None, exported = x\<rparr> \<and>
   export \<lparr>view = Some \<lparr>ev_view = v, ev_heading = h, ev_checkbox = k\<rparr>, exported = x\<rparr>
     = \<lparr>view = Some \<lparr>ev_view = v, ev_heading = h, ev_checkbox = k\<rparr>, exported = doc v\<rparr>"
  by (simp add: export_def)

section \<open>Termination of the scans\<close>

text \<open>
  C10 does not hold of the code for the heading scan. Both scans are total, each step
  moving \<open>pos\<close> to \<open>line.to + 1\<close>, and the checkbox scan visits every line of the range
  once. The heading scan of a range whose first line is a heading that is not active
  ends at that line with the builder's error (the defect of C2): the later lines of the
  range are not visited and no pair of marker widget and line class is emitted.
\<close>

theorem heading_scan_aborts_on_heading:
  "lines_in (js ''# a\<newline>\<newline>- [x]'') 0 10 =
     [\<lparr>line_from = 0, line_to = 3, line_number = 1, line_text = js ''# a''\<rparr>,
      \<lparr>line_from = 4, line_to = 4, line_number = 2, line_text = []\<rparr>,
      \<lparr>line_from = 5, line_to = 10, line_number = 3, line_text = js ''- [x]''\<rparr>] \<and>
   heading_scan (js ''# a\<newline>\<newline>- [x]'') 2 0 10 [] = Inl OrderError \<and>
   checkbox_scan (js ''# a\<newline>\<newline>- [x]'') 2 0 10 [] = Inr [(7, 10, Replace (CheckboxWidget True 7 10))]"
  by (simp add: rx_eval doc_eval build_eval lines_in_def)

end
